theory Spec2Isabelle
  imports Complex_Main "HOL-Library.AList"
begin

section \<open>Data model\<close>

text \<open>
  The embedding follows \<^verbatim>\<open>ananse/influence.py\<close>. Python dictionaries are association
  lists in insertion order (\<open>map_of\<close> reads a key, \<open>AList.update\<close> overwrites it in place
  or appends it, as a \<^verbatim>\<open>dict\<close> does). Floating point numbers are idealised as reals;
  the not-a-number value of numpy is the constructor \<open>NaN\<close> of \<open>npfloat\<close>.
  Every exception that the code can raise is a value of \<open>error\<close>.
\<close>

datatype error =
    ValueError_cutoff
  | ValueError_contradictory
  | ValueError_test
  | RecursionError
  | KeyError
  | ZeroDivisionError
  | SystemExit
  | Blocked

datatype npfloat = NaN | Num real

text \<open>Edge attributes: the keyword dictionary stored with an edge.\<close>

type_synonym attrs = "(string \<times> real) list"

text \<open>
  A networkx \<^verbatim>\<open>DiGraph\<close>: the dictionary \<^verbatim>\<open>_succ\<close>, which has one key per node and
  maps it to the dictionary of its successors with their edge attributes.
\<close>

type_synonym 'n graph = "('n \<times> ('n \<times> attrs) list) list"

definition nodes :: "'n graph \<Rightarrow> 'n list" where
  "nodes G = map fst G"

definition has_node :: "'n graph \<Rightarrow> 'n \<Rightarrow> bool" where
  "has_node G n = (map_of G n \<noteq> None)"

text \<open>\<^verbatim>\<open>G[n]\<close> and \<^verbatim>\<open>G._succ[n]\<close>: raise \<^verbatim>\<open>KeyError\<close> for a node that is not in the graph.\<close>

definition succ :: "'n graph \<Rightarrow> 'n \<Rightarrow> error + ('n \<times> attrs) list" where
  "succ G n = (case map_of G n of None \<Rightarrow> Inl KeyError | Some es \<Rightarrow> Inr es)"

definition out_degree :: "'n graph \<Rightarrow> 'n \<Rightarrow> error + nat" where
  "out_degree G n = (case map_of G n of None \<Rightarrow> Inl KeyError | Some es \<Rightarrow> Inr (length es))"

text \<open>\<^verbatim>\<open>G.edges(data=True)\<close>: every node in turn, with each of its successors in turn.\<close>

definition edges :: "'n graph \<Rightarrow> ('n \<times> 'n \<times> attrs) list" where
  "edges G = concat (map (\<lambda>(u, es). map (\<lambda>(v, d). (u, v, d)) es) G)"

definition edge_data :: "'n graph \<Rightarrow> 'n \<Rightarrow> 'n \<Rightarrow> attrs option" where
  "edge_data G u v = (case map_of G u of None \<Rightarrow> None | Some es \<Rightarrow> map_of es v)"

text \<open>\<^verbatim>\<open>G.edges[u, v][k]\<close> and \<^verbatim>\<open>G[u][v][k]\<close>: a missing edge or attribute raises.\<close>

definition edge_attr :: "'n graph \<Rightarrow> 'n \<Rightarrow> 'n \<Rightarrow> string \<Rightarrow> error + real" where
  "edge_attr G u v k =
     (case edge_data G u v of None \<Rightarrow> Inl KeyError
      | Some d \<Rightarrow> (case map_of d k of None \<Rightarrow> Inl KeyError | Some x \<Rightarrow> Inr x))"

definition add_node :: "'n graph \<Rightarrow> 'n \<Rightarrow> 'n graph" where
  "add_node G n = (if has_node G n then G else G @ [(n, [])])"

text \<open>
  \<^verbatim>\<open>G.add_edge(u, v, **attr)\<close>: both end points become nodes, and the attributes are
  written over those that the edge already has.
\<close>

definition add_edge :: "'n graph \<Rightarrow> 'n \<Rightarrow> 'n \<Rightarrow> attrs \<Rightarrow> 'n graph" where
  "add_edge G u v attr =
     (let G1 = add_node (add_node G u) v;
          es = (case map_of G1 u of None \<Rightarrow> [] | Some es \<Rightarrow> es);
          datadict = (case map_of es v of None \<Rightarrow> [] | Some d \<Rightarrow> d)
      in AList.update u (AList.update v (AList.updates (map fst attr) (map snd attr) datadict) es) G1)"

section \<open>PathScorer: \<^verbatim>\<open>dijkstra_prob_length\<close>\<close>

text \<open>
  The search state: the dictionaries \<^verbatim>\<open>dist\<close>, \<^verbatim>\<open>seen\<close> and \<^verbatim>\<open>paths\<close>, the heap
  \<^verbatim>\<open>fringe\<close> and the counter \<^verbatim>\<open>c\<close>.
\<close>

type_synonym 'n entry = "real \<times> nat \<times> 'n"

record 'n search =
  dist_of :: "('n \<times> real) list"
  seen_of :: "('n \<times> real) list"
  paths_of :: "('n \<times> 'n list) list"
  fringe_of :: "'n entry list"
  count_of :: nat

text \<open>
  The heap holds 3-tuples \<^verbatim>\<open>(distance, c, node)\<close>, compared as tuples. The counter is
  different in every entry, so the comparison never reaches the node. Only the order in
  which \<^verbatim>\<open>heappop\<close> returns the entries can be observed: the fringe is the list of the
  entries in that order.
\<close>

definition entry_less :: "'n entry \<Rightarrow> 'n entry \<Rightarrow> bool" where
  "entry_less x y = (fst x < fst y \<or> (fst x = fst y \<and> fst (snd x) < fst (snd y)))"

fun heappush :: "'n entry list \<Rightarrow> 'n entry \<Rightarrow> 'n entry list" where
  "heappush [] x = [x]"
| "heappush (y # ys) x = (if entry_less x y then x # y # ys else y # heappush ys x)"

definition heappop :: "'n entry list \<Rightarrow> ('n entry \<times> 'n entry list) option" where
  "heappop h = (case h of [] \<Rightarrow> None | x # xs \<Rightarrow> Some (x, xs))"

text \<open>
  \<^verbatim>\<open>weight_function = lambda u, v, data: -np.log10(data.get(weight, 1))\<close>. The
  logarithm of the reals stands for numpy's, with which it agrees on the weights that a
  network has, the positive ones; of a weight that is not positive numpy returns an
  infinity or not-a-number.
\<close>

definition weight_function :: "string \<Rightarrow> attrs \<Rightarrow> real" where
  "weight_function weight data =
     - log 10 (case map_of data weight of None \<Rightarrow> 1 | Some w \<Rightarrow> w)"

text \<open>The candidate distance of \<open>u\<close> through \<open>v\<close>, whose path has \<open>len\<close> nodes.\<close>

definition vu_dist :: "real \<Rightarrow> real \<Rightarrow> nat \<Rightarrow> real" where
  "vu_dist dv cost len =
     (let d = dv + cost - log 10 (1 / real len)
      in if len > 1 then d + log 10 (1 / real (len - 1)) else d)"

text \<open>The body of \<^verbatim>\<open>for u, e in G_succ[v].items()\<close>.\<close>

definition relax_edge ::
  "string \<Rightarrow> real option \<Rightarrow> 'n \<Rightarrow> 'n \<times> attrs \<Rightarrow> 'n search \<Rightarrow> error + 'n search" where
  "relax_edge weight cutoff v ue st =
     (case ue of (u, e) \<Rightarrow>
      (case map_of (paths_of st) v of None \<Rightarrow> Inl KeyError
       | Some pv \<Rightarrow>
         (case map_of (dist_of st) v of None \<Rightarrow> Inl KeyError
          | Some dv \<Rightarrow>
            if length pv = 0 then Inl ZeroDivisionError
            else
              let d = vu_dist dv (weight_function weight e) (length pv) in
              if (case cutoff of None \<Rightarrow> False | Some D \<Rightarrow> d > D) then Inr st
              else
                (case map_of (dist_of st) u of
                   Some u_dist \<Rightarrow>
                     if d < u_dist then Inl ValueError_contradictory else Inr st
                 | None \<Rightarrow>
                     if (case map_of (seen_of st) u of None \<Rightarrow> True | Some s \<Rightarrow> d < s)
                     then Inr (st\<lparr>seen_of := AList.update u d (seen_of st),
                                 fringe_of := heappush (fringe_of st) (d, count_of st, u),
                                 count_of := Suc (count_of st),
                                 paths_of := AList.update u (pv @ [u]) (paths_of st)\<rparr>)
                     else Inr st))))"

fun relax ::
  "string \<Rightarrow> real option \<Rightarrow> 'n \<Rightarrow> ('n \<times> attrs) list \<Rightarrow> 'n search \<Rightarrow> error + 'n search" where
  "relax weight cutoff v [] st = Inr st"
| "relax weight cutoff v (ue # ues) st =
     (case relax_edge weight cutoff v ue st of
        Inl err \<Rightarrow> Inl err
      | Inr st' \<Rightarrow> relax weight cutoff v ues st')"

text \<open>One turn of \<^verbatim>\<open>while fringe\<close>: it goes on, leaves the loop, or raises.\<close>

datatype 'a flow = Continue 'a | Break 'a | Raise error

definition loop_body ::
  "'n graph \<Rightarrow> string \<Rightarrow> real option \<Rightarrow> 'n option \<Rightarrow> 'n search \<Rightarrow> 'n search flow" where
  "loop_body G weight cutoff target st =
     (case heappop (fringe_of st) of
        None \<Rightarrow> Break st
      | Some ((d, _, v), rest) \<Rightarrow>
          if map_of (dist_of st) v \<noteq> None then Continue (st\<lparr>fringe_of := rest\<rparr>)
          else
            let st1 = st\<lparr>fringe_of := rest, dist_of := AList.update v d (dist_of st)\<rparr> in
            if target = Some v then Break st1
            else
              (case succ G v of
                 Inl err \<Rightarrow> Raise err
               | Inr ues \<Rightarrow>
                   (case relax weight cutoff v ues st1 of
                      Inl err \<Rightarrow> Raise err
                    | Inr st2 \<Rightarrow> Continue st2)))"


text \<open>
  Each turn of the loop that goes on either finalises a node of the graph or only takes
  an entry off the fringe: the loop ends.
\<close>

lemma relax_edge_dist: "relax_edge w c v ue st = Inr st' \<Longrightarrow> dist_of st' = dist_of st"
  by (auto simp: relax_edge_def Let_def split: prod.splits option.splits if_splits)

lemma relax_dist: "relax w c v ues st = Inr st' \<Longrightarrow> dist_of st' = dist_of st"
  by (induction ues arbitrary: st) (auto split: sum.splits dest: relax_edge_dist)

lemma succ_Inr_node: "succ G v = Inr ues \<Longrightarrow> v \<in> set (nodes G)"
  by (auto simp: succ_def nodes_def split: option.splits dest!: map_of_SomeD intro: rev_image_eqI)

lemma loop_body_decreases:
  assumes "loop_body G w c t st = Continue st'"
  shows "card (set (nodes G) - fst ` set (dist_of st')) < card (set (nodes G) - fst ` set (dist_of st))
       \<or> (dist_of st' = dist_of st \<and> length (fringe_of st') < length (fringe_of st))"
proof (cases "fringe_of st")
  case Nil
  with assms show ?thesis by (simp add: loop_body_def heappop_def)
next
  case (Cons x rest)
  obtain d k v where x: "x = (d, k, v)" by (cases x) auto
  show ?thesis
  proof (cases "map_of (dist_of st) v")
    case (Some a)
    with assms Cons x show ?thesis by (auto simp: loop_body_def heappop_def)
  next
    case None
    let ?st1 = "st\<lparr>fringe_of := rest, dist_of := AList.update v d (dist_of st)\<rparr>"
    from assms Cons x None obtain ues where
      s: "succ G v = Inr ues" and r: "relax w c v ues ?st1 = Inr st'"
      by (auto simp: loop_body_def heappop_def Let_def split: if_splits sum.splits)
    have d': "fst ` set (dist_of st') = insert v (fst ` set (dist_of st))"
      using relax_dist [OF r] by (simp add: dom_update)
    have vin: "v \<in> set (nodes G) - fst ` set (dist_of st)"
      using succ_Inr_node [OF s] None by (auto simp: map_of_eq_None_iff)
    have "set (nodes G) - fst ` set (dist_of st') = (set (nodes G) - fst ` set (dist_of st)) - {v}"
      using d' by auto
    moreover have "finite (set (nodes G) - fst ` set (dist_of st))"
      by simp
    ultimately have "card (set (nodes G) - fst ` set (dist_of st')) < card (set (nodes G) - fst ` set (dist_of st))"
      using vin card_Diff1_less [of "set (nodes G) - fst ` set (dist_of st)" v] by simp
    then show ?thesis ..
  qed
qed

text \<open>\<^verbatim>\<open>while fringe: ...\<close>\<close>

function search_loop ::
  "'n graph \<Rightarrow> string \<Rightarrow> real option \<Rightarrow> 'n option \<Rightarrow> 'n search \<Rightarrow> error + 'n search" where
  "search_loop G weight cutoff target st =
     (case loop_body G weight cutoff target st of
        Continue st' \<Rightarrow> search_loop G weight cutoff target st'
      | Break st' \<Rightarrow> Inr st'
      | Raise err \<Rightarrow> Inl err)"
  by pat_completeness auto
termination
proof (relation "measures [\<lambda>(G, w, c, t, s). card (set (nodes G) - fst ` set (dist_of s)),
                           \<lambda>(G, w, c, t, s). length (fringe_of s)]", goal_cases)
  case 1
  show ?case by simp
next
  case (2 G weight cutoff target st st')
  from loop_body_decreases [OF 2] show ?case by auto
qed

text \<open>
  The cutoff, a probability, becomes the largest distance that is kept:
  \<^verbatim>\<open>cutoff = None if cutoff == 0 else -np.log10(cutoff)\<close>.
\<close>

definition cutoff_distance :: "real \<Rightarrow> real option" where
  "cutoff_distance cutoff = (if cutoff = 0 then None else Some (- log 10 cutoff))"

definition init_search :: "'n \<Rightarrow> 'n search" where
  "init_search source =
     \<lparr>dist_of = [], seen_of = [(source, 0)], paths_of = [(source, [source])],
      fringe_of = heappush [] (0, 0, source), count_of = 1\<rparr>"

text \<open>The two dictionaries that are returned: the paths of more than one node, and the
  probability \<^verbatim>\<open>10**-v\<close> of every finalised node that has such a path.\<close>

definition search_result :: "'n search \<Rightarrow> ('n \<times> 'n list) list \<times> ('n \<times> real) list" where
  "search_result st =
     (let paths = filter (\<lambda>(k, v). length v > 1) (paths_of st);
          dist = map (\<lambda>(k, v). (k, 10 powr (- v)))
                   (filter (\<lambda>(k, v). map_of paths k \<noteq> None) (dist_of st))
      in (paths, dist))"

definition dijkstra_prob_length ::
  "'n graph \<Rightarrow> 'n \<Rightarrow> string \<Rightarrow> real \<Rightarrow> 'n option
     \<Rightarrow> error + (('n \<times> 'n list) list \<times> ('n \<times> real) list)" where
  "dijkstra_prob_length G source weight cutoff target =
     (if cutoff < 0 \<or> cutoff > 1 then Inl ValueError_cutoff
      else
        (case search_loop G weight (cutoff_distance cutoff) target (init_search source) of
           Inl err \<Rightarrow> Inl err
         | Inr st \<Rightarrow> Inr (search_result st)))"

section \<open>NetworkDiff: \<^verbatim>\<open>difference\<close>\<close>

text \<open>The attributes of an edge of the difference network, in the two modes.\<close>

definition attr_diff :: "'n graph \<Rightarrow> 'n \<Rightarrow> 'n \<Rightarrow> attrs \<Rightarrow> string \<Rightarrow> error + (real \<times> real \<times> real)" where
  "attr_diff grn_source u v ddict k =
     (case map_of ddict k of None \<Rightarrow> Inl KeyError
      | Some t \<Rightarrow>
          (case edge_attr grn_source u v k of Inl err \<Rightarrow> Inl err
           | Inr s \<Rightarrow> Inr (t - s, s, t)))"

definition full_attrs ::
  "'n graph \<Rightarrow> 'n \<Rightarrow> 'n \<Rightarrow> attrs \<Rightarrow> real \<Rightarrow> real \<Rightarrow> error + attrs" where
  "full_attrs grn_source u v ddict weight_source weight_target =
     (case attr_diff grn_source u v ddict ''tf_expression'' of Inl err \<Rightarrow> Inl err
      | Inr (tf_d, tf_s, tf_t) \<Rightarrow>
     (case attr_diff grn_source u v ddict ''tg_expression'' of Inl err \<Rightarrow> Inl err
      | Inr (tg_d, tg_s, tg_t) \<Rightarrow>
     (case attr_diff grn_source u v ddict ''weighted_binding'' of Inl err \<Rightarrow> Inl err
      | Inr (wb_d, wb_s, wb_t) \<Rightarrow>
     (case attr_diff grn_source u v ddict ''tf_activity'' of Inl err \<Rightarrow> Inl err
      | Inr (act_d, act_s, act_t) \<Rightarrow>
          Inr [(''weight'', weight_target - weight_source),
               (''weight_source'', weight_source), (''weight_target'', weight_target),
               (''tf_expr_diff'', tf_d), (''tf_expr_source'', tf_s), (''tf_expr_target'', tf_t),
               (''tg_expr_diff'', tg_d), (''tg_expr_source'', tg_s), (''tg_expr_target'', tg_t),
               (''wb_diff'', wb_d), (''wb_source'', wb_s), (''wb_target'', wb_t),
               (''tf_act_diff'', act_d), (''tf_act_source'', act_s),
               (''tf_act_target'', act_t)]))))"

text \<open>The body of the loop over the edges of the target network.\<close>

definition difference_edge ::
  "bool \<Rightarrow> 'n graph \<Rightarrow> 'n graph \<Rightarrow> 'n \<times> 'n \<times> attrs \<Rightarrow> 'n graph \<Rightarrow> error + 'n graph" where
  "difference_edge full_output grn_source grn_target e grn_diff =
     (case e of (u, v, ddict) \<Rightarrow>
      (case edge_attr grn_source u v ''weight'' of Inl err \<Rightarrow> Inl err
       | Inr weight_source \<Rightarrow>
      (case edge_attr grn_target u v ''weight'' of Inl err \<Rightarrow> Inl err
       | Inr weight_target \<Rightarrow>
           if weight_target - weight_source > 0 then
             (if full_output then
                (case full_attrs grn_source u v ddict weight_source weight_target of
                   Inl err \<Rightarrow> Inl err
                 | Inr attr \<Rightarrow> Inr (add_edge grn_diff u v attr))
              else Inr (add_edge grn_diff u v [(''weight'', weight_target - weight_source)]))
           else Inr grn_diff)))"

fun difference_loop ::
  "bool \<Rightarrow> 'n graph \<Rightarrow> 'n graph \<Rightarrow> ('n \<times> 'n \<times> attrs) list \<Rightarrow> 'n graph \<Rightarrow> error + 'n graph" where
  "difference_loop full_output grn_source grn_target [] grn_diff = Inr grn_diff"
| "difference_loop full_output grn_source grn_target (e # es) grn_diff =
     (case difference_edge full_output grn_source grn_target e grn_diff of
        Inl err \<Rightarrow> Inl err
      | Inr grn_diff' \<Rightarrow> difference_loop full_output grn_source grn_target es grn_diff')"

definition difference :: "'n graph \<Rightarrow> 'n graph \<Rightarrow> bool \<Rightarrow> error + 'n graph" where
  "difference grn_source grn_target full_output =
     difference_loop full_output grn_source grn_target (edges grn_target) []"


section \<open>Expression table and the score of one factor\<close>

text \<open>\<^verbatim>\<open>Expression = namedtuple("Expression", ["score", "absfc", "realfc"])\<close>\<close>

record expression =
  score :: real
  absfc :: real
  realfc :: real

type_synonym 'n expression_table = "('n \<times> expression) list"

fun target_score_loop :: "'n expression_table \<Rightarrow> ('n \<times> real) list \<Rightarrow> real \<Rightarrow> error + real" where
  "target_score_loop expression_change [] ts = Inr ts"
| "target_score_loop expression_change ((target, weight) # targets) ts =
     (case map_of expression_change target of
        None \<Rightarrow> Inl KeyError
      | Some g \<Rightarrow> target_score_loop expression_change targets (ts + score g * weight))"

definition target_score :: "'n expression_table \<Rightarrow> ('n \<times> real) list \<Rightarrow> error + real" where
  "target_score expression_change targets = target_score_loop expression_change targets 0"

text \<open>
  The rank test is scipy's \<^verbatim>\<open>mannwhitneyu(x, y, method="asymptotic")[1]\<close>, which is
  not part of this repository: it is a parameter, a function of the two samples that
  returns a p-value (possibly not-a-number) or raises.
\<close>

type_synonym ranktest = "real list \<Rightarrow> real list \<Rightarrow> error + npfloat"

definition mean :: "real list \<Rightarrow> real" where
  "mean xs = sum_list xs / real (length xs)"

text \<open>
  The two sets of \<^verbatim>\<open>fold_change_scores\<close>, as lists without repetition:
  \<^verbatim>\<open>set(grn[node]) & set(expression_change)\<close> and
  \<^verbatim>\<open>(set(grn.nodes) & set(expression_change)) - direct_targets\<close>. Python iterates a
  set in an order of its own; a mean does not depend on it.
\<close>

definition direct_targets :: "('n \<times> attrs) list \<Rightarrow> 'n expression_table \<Rightarrow> 'n list" where
  "direct_targets es expression_change =
     filter (\<lambda>t. map_of expression_change t \<noteq> None) (remdups (map fst es))"

definition non_direct_targets :: "'n graph \<Rightarrow> 'n expression_table \<Rightarrow> 'n list \<Rightarrow> 'n list" where
  "non_direct_targets grn expression_change direct =
     filter (\<lambda>t. t \<notin> set direct)
       (filter (\<lambda>t. map_of expression_change t \<noteq> None) (remdups (nodes grn)))"

text \<open>\<^verbatim>\<open>[expression_change[t].absfc for t in ts]\<close>, for genes of the table.\<close>

definition absfc_list :: "'n expression_table \<Rightarrow> 'n list \<Rightarrow> real list" where
  "absfc_list expression_change ts =
     List.map_filter (\<lambda>t. map_option absfc (map_of expression_change t)) ts"

text \<open>The \<^verbatim>\<open>try\<close> around the test: \<^verbatim>\<open>except (RecursionError, ValueError)\<close>.\<close>

definition try_ranktest :: "ranktest \<Rightarrow> real list \<Rightarrow> real list \<Rightarrow> error + npfloat" where
  "try_ranktest mannwhitneyu target_fc non_target_fc =
     (case mannwhitneyu target_fc non_target_fc of
        Inr pval \<Rightarrow> Inr pval
      | Inl err \<Rightarrow>
          if err \<in> {RecursionError, ValueError_cutoff, ValueError_contradictory, ValueError_test}
          then Inr NaN else Inl err)"

definition fold_change_scores ::
  "ranktest \<Rightarrow> 'n \<Rightarrow> 'n graph \<Rightarrow> 'n expression_table \<Rightarrow> error + (npfloat \<times> npfloat)" where
  "fold_change_scores mannwhitneyu node grn expression_change =
     (case succ grn node of
        Inl err \<Rightarrow> Inl err
      | Inr es \<Rightarrow>
          let direct = direct_targets es expression_change in
          if length direct = 0 then Inr (NaN, NaN)
          else
            let non_direct = non_direct_targets grn expression_change direct in
            if length non_direct = 0 then Inr (NaN, NaN)
            else
              let target_fc = absfc_list expression_change direct;
                  non_target_fc = absfc_list expression_change non_direct
              in (case try_ranktest mannwhitneyu target_fc non_target_fc of
                    Inl err \<Rightarrow> Inl err
                  | Inr pval \<Rightarrow> Inr (pval, Num (mean target_fc - mean non_target_fc))))"

text \<open>The tuple that \<^verbatim>\<open>influence_scores\<close> returns, one line of the score table.\<close>

record 'n score_record =
  factor :: 'n
  directTargets :: nat
  totalTargets :: nat
  targetscore :: real
  Gscore :: real
  factor_fc :: real
  pval :: npfloat
  target_fc :: npfloat

definition influence_scores ::
  "ranktest \<Rightarrow> 'n \<Rightarrow> 'n graph \<Rightarrow> 'n expression_table \<Rightarrow> 'n set \<Rightarrow> error + 'n score_record" where
  "influence_scores mannwhitneyu node grn expression_change de_genes =
     (case dijkstra_prob_length grn node ''weight'' (6 / 10) None of
        Inl err \<Rightarrow> Inl err
      | Inr (paths, weights) \<Rightarrow>
          let de_targets = filter (\<lambda>(k, v). k \<in> de_genes) weights in
          (case target_score expression_change de_targets of
             Inl err \<Rightarrow> Inl err
           | Inr ts \<Rightarrow>
               (case fold_change_scores mannwhitneyu node grn expression_change of
                  Inl err \<Rightarrow> Inl err
                | Inr (p, target_fc_diff) \<Rightarrow>
                    let fc = (case map_of expression_change node of
                                Some g \<Rightarrow> absfc g | None \<Rightarrow> 0)
                    in (case out_degree grn node of
                          Inl err \<Rightarrow> Inl err
                        | Inr deg \<Rightarrow>
                            (case map_of expression_change node of
                               None \<Rightarrow> Inl KeyError
                             | Some g \<Rightarrow>
                                 Inr \<lparr>factor = node, directTargets = deg,
                                      totalTargets = length paths, targetscore = ts,
                                      Gscore = score g, factor_fc = fc, pval = p,
                                      target_fc = target_fc_diff\<rparr>)))))"

section \<open>TFFilter: \<^verbatim>\<open>filter_tf\<close>\<close>

text \<open>
  The score table is the list of its rows, each the index label (the factor) and the
  column \<^verbatim>\<open>sumScaled\<close>. The lines of the TPM file after the header are the pairs of
  their first two fields.
\<close>

definition tpmscore :: "('n \<times> real) list \<Rightarrow> ('n \<times> real) list" where
  "tpmscore tpm_lines = fold (\<lambda>(name, x) d. AList.update name x d) tpm_lines []"

text \<open>\<^verbatim>\<open>set(network[tf]) if tf in network else set()\<close>\<close>

definition tftarget :: "'n graph \<Rightarrow> 'n \<Rightarrow> 'n list" where
  "tftarget network tf =
     (case map_of network tf of None \<Rightarrow> [] | Some es \<Rightarrow> remdups (map fst es))"

text \<open>\<^verbatim>\<open>len(tftarget[i] & tftarget[j]) / len(tftarget[i])\<close>\<close>

definition overlap_ratio :: "'n graph \<Rightarrow> 'n \<Rightarrow> 'n \<Rightarrow> real" where
  "overlap_ratio network i j =
     real (length (filter (\<lambda>x. x \<in> set (tftarget network j)) (tftarget network i)))
       / real (length (tftarget network i))"

text \<open>The inner loop over the factors ranked before \<open>i\<close>, which stops at the first
  one that shares too many targets.\<close>

fun pass_loop :: "'n graph \<Rightarrow> real \<Rightarrow> 'n \<Rightarrow> 'n list \<Rightarrow> 'n list \<Rightarrow> 'n list" where
  "pass_loop network overlap i [] passtf = passtf"
| "pass_loop network overlap i (j # js) passtf =
     (if overlap_ratio network i j > overlap then passtf
      else pass_loop network overlap i js (passtf @ [j]))"

text \<open>\<^verbatim>\<open>ltf[: ltf.index(i)]\<close>\<close>

definition before :: "'n list \<Rightarrow> 'n \<Rightarrow> 'n list" where
  "before ltf i = takeWhile (\<lambda>x. x \<noteq> i) ltf"

fun keep_loop ::
  "'n graph \<Rightarrow> ('n \<times> real) list \<Rightarrow> real \<Rightarrow> real \<Rightarrow> 'n list \<Rightarrow> 'n list \<Rightarrow> 'n list \<Rightarrow> 'n list" where
  "keep_loop network tpms tpm overlap ltf [] keeptf = keeptf"
| "keep_loop network tpms tpm overlap ltf (i # is) keeptf =
     keep_loop network tpms tpm overlap ltf is
       (if length (tftarget network i) > 0
           \<and> pass_loop network overlap i (before ltf i) [] = before ltf i
           \<and> (case map_of tpms i of None \<Rightarrow> False | Some x \<Rightarrow> x < tpm)
        then keeptf @ [i] else keeptf)"

text \<open>
  \<^verbatim>\<open>scores_df.loc[keeptf]\<close> takes the rows with these labels, and the rows are then
  sorted on \<^verbatim>\<open>sumScaled\<close>, the largest first.
\<close>

definition filter_tf ::
  "('n \<times> real) list \<Rightarrow> 'n graph \<Rightarrow> ('n \<times> real) list \<Rightarrow> real \<Rightarrow> real \<Rightarrow> ('n \<times> real) list" where
  "filter_tf scores_df network tpm_lines tpm overlap =
     (let ltf = map fst scores_df;
          keeptf = keep_loop network (tpmscore tpm_lines) tpm overlap ltf ltf []
      in sort_key (\<lambda>row. - snd row)
           (concat (map (\<lambda>tf. filter (\<lambda>row. fst row = tf) scores_df) keeptf)))"

section \<open>ParallelScoreEngine: \<^verbatim>\<open>Influence.run_target_score\<close>\<close>

text \<open>
  \<^verbatim>\<open>for x in xs: print(f(x))\<close>: the lines written, unless one of the calls raises.
\<close>

fun collect :: "(error + 'r) list \<Rightarrow> error + 'r list" where
  "collect [] = Inr []"
| "collect (r # rs) =
     (case r of
        Inl err \<Rightarrow> Inl err
      | Inr x \<Rightarrow> (case collect rs of Inl err \<Rightarrow> Inl err | Inr xs \<Rightarrow> Inr (x # xs)))"

text \<open>
  The pool: \<^verbatim>\<open>apply_async\<close> makes job \<open>k\<close> of the \<open>k\<close>-th factor, the workers finish the
  jobs in some order \<open>sched\<close>, and a finished job holds what its call returned or
  raised. \<^verbatim>\<open>j.get()\<close> waits for the job and returns or raises that; of a job that is
  never finished it does not return (\<open>Blocked\<close>). A failure of the pool itself
  (a worker that dies, a result that cannot be pickled) is not part of the model.
\<close>

definition pool_run :: "(error + 'r) list \<Rightarrow> nat list \<Rightarrow> (nat \<rightharpoonup> error + 'r)" where
  "pool_run jobs sched =
     fold (\<lambda>k finished. if k < length jobs then finished(k \<mapsto> jobs ! k) else finished)
       sched Map.empty"

definition get :: "(nat \<rightharpoonup> error + 'r) \<Rightarrow> nat \<Rightarrow> error + 'r" where
  "get finished k = (case finished k of None \<Rightarrow> Inl Blocked | Some r \<Rightarrow> r)"

text \<open>
  \<^verbatim>\<open>run_target_score\<close>, up to the lines of the score table. \<open>set_order\<close> is the order
  in which Python iterates the set \<^verbatim>\<open>de_tfs\<close> that is built from a list.
\<close>

definition run_target_score ::
  "ranktest \<Rightarrow> ('n list \<Rightarrow> 'n list) \<Rightarrow> nat \<Rightarrow> nat list \<Rightarrow> 'n graph \<Rightarrow> 'n expression_table
     \<Rightarrow> error + 'n score_record list" where
  "run_target_score mannwhitneyu set_order ncore sched grn expression_change =
     (let tfs = filter (\<lambda>node. case out_degree grn node of Inr deg \<Rightarrow> deg > 0 | Inl _ \<Rightarrow> False)
                  (nodes grn);
          de_tfs = filter (\<lambda>tf. map_of expression_change tf \<noteq> None) tfs
      in if length de_tfs = 0 then Inl SystemExit
      else
        let de_tfs = set_order
              (filter (\<lambda>tf. case map_of expression_change tf of
                               Some g \<Rightarrow> realfc g > 0 | None \<Rightarrow> False) de_tfs)
        in if length de_tfs = 0 then Inl SystemExit
        else
          let de_genes = {g \<in> set (map fst expression_change).
                            g \<in> set (nodes grn)
                            \<and> (case map_of expression_change g of
                                  Some x \<Rightarrow> score x > 0 | None \<Rightarrow> False)};
              job = (\<lambda>tf. influence_scores mannwhitneyu tf grn expression_change de_genes)
          in if ncore > 1 then
               (let finished = pool_run (map job de_tfs) sched
                in collect (map (get finished) [0 ..< length de_tfs]))
             else collect (map job de_tfs))"


text \<open>The factors that \<^verbatim>\<open>run_target_score\<close> scores, in the order in which it scores them.\<close>

definition scored_tfs :: "('n list \<Rightarrow> 'n list) \<Rightarrow> 'n graph \<Rightarrow> 'n expression_table \<Rightarrow> 'n list" where
  "scored_tfs set_order grn expression_change =
     set_order
       (filter (\<lambda>tf. case map_of expression_change tf of Some g \<Rightarrow> realfc g > 0 | None \<Rightarrow> False)
         (filter (\<lambda>tf. map_of expression_change tf \<noteq> None)
           (filter (\<lambda>node. case out_degree grn node of Inr deg \<Rightarrow> deg > 0 | Inl _ \<Rightarrow> False)
             (nodes grn))))"

section \<open>Small networks on which the functions are evaluated\<close>

definition example_source :: "string graph" where
  "example_source =
     [(''A'', [(''B'', [(''weight'', 2 / 10), (''tf_expression'', 1), (''tg_expression'', 2),
                       (''weighted_binding'', 3), (''tf_activity'', 4)]),
               (''C'', [(''weight'', 5 / 10), (''tf_expression'', 1), (''tg_expression'', 2),
                       (''weighted_binding'', 3), (''tf_activity'', 4)])]),
      (''B'', []), (''C'', [])]"

definition example_target :: "string graph" where
  "example_target =
     [(''A'', [(''B'', [(''weight'', 7 / 10), (''tf_expression'', 2), (''tg_expression'', 2),
                       (''weighted_binding'', 5), (''tf_activity'', 4)]),
               (''C'', [(''weight'', 3 / 10), (''tf_expression'', 2), (''tg_expression'', 2),
                       (''weighted_binding'', 5), (''tf_activity'', 4)])]),
      (''B'', []), (''C'', [])]"

definition example_diff :: "string graph" where
  "example_diff =
     [(''A'', [(''B'', [(''weight'', 1 / 2), (''weight_source'', 1 / 5),
                       (''weight_target'', 7 / 10), (''tf_expr_diff'', 1),
                       (''tf_expr_source'', 1), (''tf_expr_target'', 2),
                       (''tg_expr_diff'', 0), (''tg_expr_source'', 2),
                       (''tg_expr_target'', 2), (''wb_diff'', 2), (''wb_source'', 3),
                       (''wb_target'', 5), (''tf_act_diff'', 0),
                       (''tf_act_source'', 4), (''tf_act_target'', 4)])]),
      (''B'', [])]"

definition example_grn :: "string graph" where
  "example_grn =
     [(''A'', [(''B'', [(''weight'', 7 / 10)]), (''C'', [(''weight'', 9 / 10)])]),
      (''B'', []), (''C'', [])]"

definition example_expression :: "string expression_table" where
  "example_expression =
     [(''A'', \<lparr>score = 2, absfc = 2, realfc = 2\<rparr>),
      (''B'', \<lparr>score = 3 / 2, absfc = 3 / 2, realfc = - 3 / 2\<rparr>),
      (''C'', \<lparr>score = 0, absfc = 1 / 2, realfc = 1 / 2\<rparr>)]"

definition example_ranktest :: ranktest where
  "example_ranktest x y = Inr (Num (1 / 2))"

text \<open>The definitions that a run of the search unfolds.\<close>

lemmas search_defs = dijkstra_prob_length_def cutoff_distance_def init_search_def
     loop_body_def heappop_def succ_def relax_edge_def vu_dist_def weight_function_def
     entry_less_def search_result_def Let_def

definition example_grn2 :: "string graph" where
  "example_grn2 = example_grn @ [(''D'', [(''B'', [(''weight'', 8 / 10)])])]"

definition example_expression2 :: "string expression_table" where
  "example_expression2 = example_expression @ [(''D'', \<lparr>score = 1, absfc = 1, realfc = 1\<rparr>)]"

definition example_chain :: "string graph" where
  "example_chain =
     [(''S'', [(''A'', [(''weight'', 1 / 10)])]),
      (''A'', [(''B'', [(''weight'', 1 / 10)])]),
      (''B'', [])]"

text \<open>The state of the search on the chain, with the cutoff 1/100, when the edge from
  A to B is relaxed.\<close>

definition example_chain_state :: "string search" where
  "example_chain_state =
     \<lparr>dist_of = [(''S'', 0), (''A'', 1)],
      seen_of = [(''S'', 0), (''A'', 1)],
      paths_of = [(''S'', [''S'']), (''A'', [''S'', ''A''])],
      fringe_of = [], count_of = 2\<rparr>"

text \<open>A network with an edge weight above 1, and the states of the search on it before
  B is taken off the fringe and when the edge from B to A, the second of B, is relaxed.\<close>

definition example_bad :: "string graph" where
  "example_bad =
     [(''S'', [(''A'', [(''weight'', 1 / 10)]), (''B'', [(''weight'', 1 / 100)])]),
      (''A'', []),
      (''B'', [(''C'', [(''weight'', 1 / 10)]), (''A'', [(''weight'', 100)])]),
      (''C'', [])]"

definition example_bad_before :: "string search" where
  "example_bad_before =
     \<lparr>dist_of = [(''S'', 0), (''A'', 1)],
      seen_of = [(''S'', 0), (''A'', 1), (''B'', 2)],
      paths_of = [(''S'', [''S'']), (''A'', [''S'', ''A'']), (''B'', [''S'', ''B''])],
      fringe_of = [(2, 2, ''B'')], count_of = 3\<rparr>"

definition example_bad_state :: "string search" where
  "example_bad_state =
     \<lparr>dist_of = [(''S'', 0), (''A'', 1), (''B'', 2)],
      seen_of = [(''S'', 0), (''A'', 1), (''B'', 2), (''C'', 3 + log 10 2)],
      paths_of = [(''S'', [''S'']), (''A'', [''S'', ''A'']), (''B'', [''S'', ''B'']),
                  (''C'', [''S'', ''B'', ''C''])],
      fringe_of = [(3 + log 10 2, 3, ''C'')], count_of = 4\<rparr>"

section \<open>Invariants used in the proofs\<close>

text \<open>The invariant of the loop: what the difference network holds so far.\<close>

definition diff_edge_ok :: "'n graph \<Rightarrow> 'n graph \<Rightarrow> 'n graph \<Rightarrow> 'n \<Rightarrow> 'n \<Rightarrow> bool" where
  "diff_edge_ok gs gt gd u v =
     (case edge_data gd u v of
        None \<Rightarrow> True
      | Some d \<Rightarrow> \<exists>ws wt. edge_attr gs u v ''weight'' = Inr ws \<and>
                   edge_attr gt u v ''weight'' = Inr wt \<and> wt - ws > 0 \<and>
                   map_of d ''weight'' = Some (wt - ws))"

text \<open>The state after a candidate is accepted.\<close>

definition pushed :: "'n search \<Rightarrow> 'n \<Rightarrow> real \<Rightarrow> 'n list \<Rightarrow> 'n search" where
  "pushed st u d pv =
     st\<lparr>seen_of := AList.update u d (seen_of st),
        fringe_of := heappush (fringe_of st) (d, count_of st, u),
        count_of := Suc (count_of st),
        paths_of := AList.update u (pv @ [u]) (paths_of st)\<rparr>"

definition over_cutoff :: "real option \<Rightarrow> real \<Rightarrow> bool" where
  "over_cutoff cutoff d = (case cutoff of None \<Rightarrow> False | Some D \<Rightarrow> d > D)"

definition improves :: "'n search \<Rightarrow> 'n \<Rightarrow> real \<Rightarrow> bool" where
  "improves st u d = (case map_of (seen_of st) u of None \<Rightarrow> True | Some s \<Rightarrow> d < s)"

definition unit_weights :: "'n graph \<Rightarrow> string \<Rightarrow> bool" where
  "unit_weights G weight =
     (\<forall>v ues u e x. map_of G v = Some ues \<and> (u, e) \<in> set ues \<and> map_of e weight = Some x
        \<longrightarrow> 0 < x \<and> x \<le> 1)"

definition finalised_below :: "'n search \<Rightarrow> real \<Rightarrow> bool" where
  "finalised_below st d = (\<forall>u du. map_of (dist_of st) u = Some du \<longrightarrow> du \<le> d)"

definition fringe_above :: "'n search \<Rightarrow> real \<Rightarrow> bool" where
  "fringe_above st d = (\<forall>x \<in> set (fringe_of st). d \<le> fst x)"

definition fringe_sorted :: "'n search \<Rightarrow> bool" where
  "fringe_sorted st = sorted_wrt (\<lambda>a b. \<not> entry_less b a) (fringe_of st)"

text \<open>How the fringe, \<^verbatim>\<open>seen\<close> and \<^verbatim>\<open>dist\<close> are related while the search runs.\<close>

definition fringe_ok :: "'n search \<Rightarrow> bool" where
  "fringe_ok st =
     (fringe_sorted st
      \<and> (\<forall>x \<in> set (fringe_of st).
            \<exists>s. map_of (seen_of st) (snd (snd x)) = Some s \<and> s \<le> fst x)
      \<and> (\<forall>u s. map_of (seen_of st) u = Some s \<and> map_of (dist_of st) u = None
            \<longrightarrow> (\<exists>k. (s, k, u) \<in> set (fringe_of st)))
      \<and> (\<forall>u du. map_of (dist_of st) u = Some du \<longrightarrow> map_of (seen_of st) u = Some du)
      \<and> (\<forall>x \<in> set (fringe_of st). fst (snd x) < count_of st))"

definition paths_ok :: "'n \<Rightarrow> 'n search \<Rightarrow> bool" where
  "paths_ok source st =
     ((\<forall>u. map_of (seen_of st) u \<noteq> None \<longrightarrow> (\<exists>p. map_of (paths_of st) u = Some p \<and> p \<noteq> []))
      \<and> map_of (paths_of st) source = Some [source]
      \<and> (\<forall>u p. map_of (paths_of st) u = Some p \<and> u \<noteq> source \<longrightarrow> length p > 1)
      \<and> (map_of (dist_of st) source \<noteq> None
           \<or> (dist_of st = [] \<and> fringe_of st = [(0, 0, source)])))"

definition justified :: "'n graph \<Rightarrow> string \<Rightarrow> 'n \<Rightarrow> 'n search \<Rightarrow> bool" where
  "justified G w source st =
     (\<forall>u s. map_of (seen_of st) u = Some s \<and> u \<noteq> source \<longrightarrow>
        (\<exists>v ues e pv dv.
           map_of (dist_of st) v = Some dv \<and> map_of (paths_of st) v = Some pv \<and>
           succ G v = Inr ues \<and> (u, e) \<in> set ues \<and>
           map_of (paths_of st) u = Some (pv @ [u]) \<and>
           s = vu_dist dv (weight_function w e) (length pv)))"

definition search_inv :: "'n graph \<Rightarrow> string \<Rightarrow> 'n \<Rightarrow> 'n search \<Rightarrow> bool" where
  "search_inv G w source st = (fringe_ok st \<and> paths_ok source st \<and> justified G w source st)"

definition within_cutoff :: "real \<Rightarrow> 'n search \<Rightarrow> bool" where
  "within_cutoff D st =
     ((\<forall>x \<in> set (fringe_of st). fst x \<le> D) \<and> (\<forall>u du. map_of (dist_of st) u = Some du \<longrightarrow> du \<le> D))"

text \<open>No finalised distance is greater than a distance on the fringe.\<close>

definition settled :: "'n search \<Rightarrow> bool" where
  "settled st =
     (\<forall>u du x. map_of (dist_of st) u = Some du \<and> x \<in> set (fringe_of st) \<longrightarrow> du \<le> fst x)"

text \<open>Every successor is a node of the graph, as in a networkx graph.\<close>

definition closed_graph :: "'n graph \<Rightarrow> bool" where
  "closed_graph G =
     (\<forall>v ues u e. map_of G v = Some ues \<and> (u, e) \<in> set ues \<longrightarrow> map_of G u \<noteq> None)"

definition fringe_nodes :: "'n graph \<Rightarrow> 'n search \<Rightarrow> bool" where
  "fringe_nodes G st = (\<forall>x \<in> set (fringe_of st). map_of G (snd (snd x)) \<noteq> None)"

text \<open>What holds at the head of the loop of a search that cannot fail, and what holds
  while the successors of \<open>v\<close>, finalised at the distance \<open>d\<close>, are relaxed.\<close>

definition safe :: "'n graph \<Rightarrow> string \<Rightarrow> 'n \<Rightarrow> 'n search \<Rightarrow> bool" where
  "safe G w source st = (search_inv G w source st \<and> settled st \<and> fringe_nodes G st)"

definition safe_inner :: "'n graph \<Rightarrow> string \<Rightarrow> 'n \<Rightarrow> 'n \<Rightarrow> real \<Rightarrow> 'n search \<Rightarrow> bool" where
  "safe_inner G w source v d st =
     (search_inv G w source st \<and> finalised_below st d \<and> fringe_above st d
      \<and> map_of (dist_of st) v = Some d \<and> fringe_nodes G st)"

text \<open>The later state keeps the distance and the path of every node finalised so far.\<close>

definition extends :: "'n search \<Rightarrow> 'n search \<Rightarrow> bool" where
  "extends st st' =
     (\<forall>u d. map_of (dist_of st) u = Some d \<longrightarrow>
        map_of (dist_of st') u = Some d \<and> map_of (paths_of st') u = map_of (paths_of st) u)"

text \<open>An entry of the fringe without its counter.\<close>

definition strip :: "'n entry \<Rightarrow> real \<times> 'n" where
  "strip x = (fst x, snd (snd x))"

text \<open>
  Two searches of one graph from one source, the first with a cutoff distance that is
  at least the cutoff distance \<open>D\<close> of the second: as long as the second runs, they
  finalise the same nodes, and the second has of the first what lies within \<open>D\<close>.
\<close>

definition lockstep :: "real \<Rightarrow> 'n search \<Rightarrow> 'n search \<Rightarrow> bool" where
  "lockstep D st1 st2 =
     (dist_of st1 = dist_of st2
      \<and> (\<forall>u. map_of (seen_of st2) u =
               (case map_of (seen_of st1) u of
                  None \<Rightarrow> None | Some s \<Rightarrow> if s \<le> D then Some s else None))
      \<and> (\<forall>u. map_of (seen_of st2) u \<noteq> None \<longrightarrow>
               map_of (paths_of st2) u = map_of (paths_of st1) u)
      \<and> map strip (fringe_of st2) = map strip (filter (\<lambda>x. fst x \<le> D) (fringe_of st1))
      \<and> (\<forall>x \<in> set (fringe_of st2). fst (snd x) < count_of st2)
      \<and> (\<forall>u d. map_of (dist_of st1) u = Some d \<longrightarrow> d \<le> D))"

text \<open>
  The first \<open>n\<close> turns of \<^verbatim>\<open>while fringe\<close>: the state at the head of the loop after them,
  when none of them left the loop or raised.
\<close>

fun turns ::
  "nat \<Rightarrow> 'n graph \<Rightarrow> string \<Rightarrow> real option \<Rightarrow> 'n option \<Rightarrow> 'n search \<Rightarrow> 'n search flow" where
  "turns 0 G weight cutoff target st = Continue st"
| "turns (Suc n) G weight cutoff target st =
     (case loop_body G weight cutoff target st of
        Continue st' \<Rightarrow> turns n G weight cutoff target st'
      | Break st' \<Rightarrow> Break st'
      | Raise err \<Rightarrow> Raise err)"

section \<open>Properties\<close>

subsection \<open>Rules for the two loops of the search\<close>

lemma relax_rule:
  assumes "relax w c v ues st = Inr st'" and "P st"
    and "\<And>ue s s'. ue \<in> set ues \<Longrightarrow> P s \<Longrightarrow> relax_edge w c v ue s = Inr s' \<Longrightarrow> P s'"
  shows "P st'"
  using assms
proof (induction ues arbitrary: st)
  case Nil
  then show ?case by simp
next
  case (Cons ue ues)
  from Cons.prems(1) obtain s1 where
    a: "relax_edge w c v ue st = Inr s1" and b: "relax w c v ues s1 = Inr st'"
    by (auto split: sum.splits)
  have "P s1" using Cons.prems(3) [OF _ Cons.prems(2) a] by simp
  from Cons.IH [OF b this] Cons.prems(3) show ?case by auto
qed

lemma search_loop_rule:
  assumes "search_loop G w c t st = Inr st'" and "P st"
    and "\<And>s s'. P s \<Longrightarrow> loop_body G w c t s = Continue s' \<Longrightarrow> P s'"
    and "\<And>s s'. P s \<Longrightarrow> loop_body G w c t s = Break s' \<Longrightarrow> P s'"
  shows "P st'"
  using assms
proof (induction G w c t st rule: search_loop.induct)
  case (1 G w c t st)
  show ?case
  proof (cases "loop_body G w c t st")
    case (Continue s1)
    with "1.prems"(1) have r: "search_loop G w c t s1 = Inr st'"
      by (simp add: search_loop.simps [of G w c t st])
    have "P s1" using "1.prems"(3) [OF "1.prems"(2) Continue] .
    from "1.IH" [OF Continue r this "1.prems"(3) "1.prems"(4)] show ?thesis by simp
  next
    case (Break s1)
    with "1.prems"(1) have "st' = s1"
      by (simp add: search_loop.simps [of G w c t st])
    with "1.prems"(4) [OF "1.prems"(2) Break] show ?thesis by simp
  next
    case (Raise e)
    with "1.prems"(1) show ?thesis
      by (simp add: search_loop.simps [of G w c t st])
  qed
qed

lemma loop_body_Continue:
  assumes "loop_body G w c t st = Continue st'"
  shows "\<exists>d k v rest. fringe_of st = (d, k, v) # rest \<and>
           ((map_of (dist_of st) v \<noteq> None \<and> st' = st\<lparr>fringe_of := rest\<rparr>) \<or>
            (map_of (dist_of st) v = None \<and> t \<noteq> Some v \<and>
             (\<exists>ues. succ G v = Inr ues \<and>
                relax w c v ues (st\<lparr>fringe_of := rest, dist_of := AList.update v d (dist_of st)\<rparr>)
                  = Inr st')))"
proof (cases "fringe_of st")
  case Nil
  with assms show ?thesis by (simp add: loop_body_def heappop_def)
next
  case (Cons x rest)
  obtain d k v where x: "x = (d, k, v)" by (cases x) auto
  show ?thesis
  proof (cases "map_of (dist_of st) v")
    case (Some a)
    with assms Cons x show ?thesis by (auto simp: loop_body_def heappop_def)
  next
    case None
    with assms Cons x show ?thesis
      by (auto simp: loop_body_def heappop_def Let_def split: if_splits sum.splits)
  qed
qed

lemma loop_body_Break:
  assumes "loop_body G w c t st = Break st'"
  shows "(fringe_of st = [] \<and> st' = st) \<or>
         (\<exists>d k v rest. fringe_of st = (d, k, v) # rest \<and> map_of (dist_of st) v = None \<and>
            t = Some v \<and> st' = st\<lparr>fringe_of := rest, dist_of := AList.update v d (dist_of st)\<rparr>)"
proof (cases "fringe_of st")
  case Nil
  with assms show ?thesis by (simp add: loop_body_def heappop_def)
next
  case (Cons x rest)
  obtain d k v where x: "x = (d, k, v)" by (cases x) auto
  with assms Cons show ?thesis
    by (auto simp: loop_body_def heappop_def Let_def split: if_splits sum.splits)
qed

lemma loop_body_Nil: "fringe_of st = [] \<Longrightarrow> loop_body G w c t st = Break st"
  by (simp add: loop_body_def heappop_def)

lemma loop_body_skip:
  "fringe_of st = (d, k, v) # rest \<Longrightarrow> map_of (dist_of st) v \<noteq> None \<Longrightarrow>
     loop_body G w c t st = Continue (st\<lparr>fringe_of := rest\<rparr>)"
  by (auto simp: loop_body_def heappop_def)

lemma loop_body_target:
  "fringe_of st = (d, k, v) # rest \<Longrightarrow> map_of (dist_of st) v = None \<Longrightarrow> t = Some v \<Longrightarrow>
     loop_body G w c t st = Break (st\<lparr>fringe_of := rest, dist_of := AList.update v d (dist_of st)\<rparr>)"
  by (simp add: loop_body_def heappop_def Let_def)

lemma loop_body_visit:
  "fringe_of st = (d, k, v) # rest \<Longrightarrow> map_of (dist_of st) v = None \<Longrightarrow> t \<noteq> Some v \<Longrightarrow>
     succ G v = Inr ues \<Longrightarrow>
     loop_body G w c t st =
       (case relax w c v ues (st\<lparr>fringe_of := rest, dist_of := AList.update v d (dist_of st)\<rparr>) of
          Inl err \<Rightarrow> Raise err | Inr st2 \<Rightarrow> Continue st2)"
  by (simp add: loop_body_def heappop_def Let_def)

lemma turns_Suc:
  assumes "turns (Suc n) G w c t st = Continue s"
  shows "\<exists>s1. loop_body G w c t st = Continue s1 \<and> turns n G w c t s1 = Continue s"
  using assms by (cases "loop_body G w c t st") simp_all

lemma turns_search_loop:
  assumes "turns n G w c t st = Continue s"
  shows "search_loop G w c t st = search_loop G w c t s"
  using assms
proof (induction n arbitrary: st)
  case 0
  then show ?case by simp
next
  case (Suc n)
  from turns_Suc [OF Suc.prems] obtain s1 where
    b: "loop_body G w c t st = Continue s1" and r: "turns n G w c t s1 = Continue s"
    by blast
  from b have "search_loop G w c t st = search_loop G w c t s1"
    by (simp add: search_loop.simps [of G w c t st])
  with Suc.IH [OF r] show ?case by simp
qed

lemma turns_rule:
  assumes "turns n G w c t st = Continue s" and "P st"
    and "\<And>a b. P a \<Longrightarrow> loop_body G w c t a = Continue b \<Longrightarrow> P b"
  shows "P s"
  using assms(1,2)
proof (induction n arbitrary: st)
  case 0
  then show ?case by simp
next
  case (Suc n)
  from turns_Suc [OF Suc.prems(1)] obtain s1 where
    b: "loop_body G w c t st = Continue s1" and r: "turns n G w c t s1 = Continue s"
    by blast
  from Suc.IH [OF r assms(3) [OF Suc.prems(2) b]] show ?case .
qed

lemma dist_distinct_loop:
  assumes "search_loop G w c t st = Inr st'" and "distinct (map fst (dist_of st))"
  shows "distinct (map fst (dist_of st'))"
proof (rule search_loop_rule [OF assms(1), where P = "\<lambda>s. distinct (map fst (dist_of s))"])
  show "distinct (map fst (dist_of st))" by fact
next
  fix s s' assume d: "distinct (map fst (dist_of s))" and b: "loop_body G w c t s = Continue s'"
  from loop_body_Continue [OF b] d show "distinct (map fst (dist_of s'))"
    by (auto simp: distinct_update dest!: relax_dist)
next
  fix s s' assume d: "distinct (map fst (dist_of s))" and b: "loop_body G w c t s = Break s'"
  from loop_body_Break [OF b] d show "distinct (map fst (dist_of s'))"
    by (auto simp: distinct_update)
qed

lemma search_result_distinct:
  "distinct (map fst (dist_of st)) \<Longrightarrow> distinct (map fst (snd (search_result st)))"
  by (simp add: search_result_def Let_def comp_def case_prod_beta distinct_map_filter)

lemma dijkstra_weights_distinct:
  assumes "dijkstra_prob_length G source w cutoff t = Inr (paths, weights)"
  shows "distinct (map fst weights)"
proof -
  from assms obtain st where
    l: "search_loop G w (cutoff_distance cutoff) t (init_search source) = Inr st"
    and r: "search_result st = (paths, weights)"
    by (auto simp: dijkstra_prob_length_def split: if_splits sum.splits)
  have "distinct (map fst (dist_of st))"
    by (rule dist_distinct_loop [OF l]) (simp add: init_search_def)
  from search_result_distinct [OF this] r show ?thesis by simp
qed

lemma dijkstra_source_node:
  assumes "dijkstra_prob_length G source w cutoff None = Inr r"
  shows "\<exists>es. succ G source = Inr es"
proof (rule ccontr)
  assume "\<not> (\<exists>es. succ G source = Inr es)"
  then obtain e where "succ G source = Inl e" by (cases "succ G source") auto
  then have "loop_body G w (cutoff_distance cutoff) None (init_search source) = Raise e"
    by (simp add: loop_body_def init_search_def heappop_def)
  then have "search_loop G w (cutoff_distance cutoff) None (init_search source) = Inl e"
    by (simp add: search_loop.simps [of G w _ None "init_search source"])
  with assms show False
    by (simp add: dijkstra_prob_length_def split: if_splits)
qed

subsection \<open>TFFilter never keeps a factor without targets or without a TPM value\<close>

lemma tpmscore_fold_keys:
  "fst ` set (fold (\<lambda>(name, x) d. AList.update name x d) ls d0) = fst ` set ls \<union> fst ` set d0"
  by (induction ls arbitrary: d0) (auto simp: dom_update split: prod.splits)

lemma tpmscore_keys: "map_of (tpmscore tpm_lines) tf \<noteq> None \<longleftrightarrow> tf \<in> fst ` set tpm_lines"
  using tpmscore_fold_keys [of tpm_lines "[]"]
  by (simp add: tpmscore_def map_of_eq_None_iff)

lemma keep_loop_kept:
  "tf \<in> set (keep_loop network tpms tpm overlap ltf is keeptf) \<Longrightarrow>
     tf \<in> set keeptf \<or> (length (tftarget network tf) > 0 \<and> map_of tpms tf \<noteq> None)"
proof (induction "is" arbitrary: keeptf)
  case Nil
  then show ?case by simp
next
  case (Cons i "is")
  let ?keep = "length (tftarget network i) > 0
           \<and> pass_loop network overlap i (before ltf i) [] = before ltf i
           \<and> (case map_of tpms i of None \<Rightarrow> False | Some x \<Rightarrow> x < tpm)"
  from Cons.prems
  have "tf \<in> set (keep_loop network tpms tpm overlap ltf is (if ?keep then keeptf @ [i] else keeptf))"
    by simp
  from Cons.IH [OF this] show ?case
    by (cases ?keep) (auto split: option.splits)
qed

lemma tftarget_nonempty:
  "length (tftarget network tf) > 0 \<Longrightarrow>
     has_node network tf \<and> (\<exists>es. succ network tf = Inr es \<and> es \<noteq> [])"
  by (auto simp: tftarget_def has_node_def succ_def split: option.splits)

text \<open>
  Claim C10. Whatever the ranked table, the thresholds and the TPM file are, every row
  that \<^verbatim>\<open>filter_tf\<close> keeps is the row of a factor that is a node of the network, has at
  least one successor there, and has a line in the TPM file. A factor that is not in
  the network, has no target, or has no TPM value is never kept.
\<close>

theorem filter_tf_excludes:
  assumes "row \<in> set (filter_tf scores_df network tpm_lines tpm overlap)"
  shows "has_node network (fst row) \<and> (\<exists>es. succ network (fst row) = Inr es \<and> es \<noteq> [])
           \<and> fst row \<in> fst ` set tpm_lines"
proof -
  let ?ltf = "map fst scores_df"
  from assms have "fst row \<in> set (keep_loop network (tpmscore tpm_lines) tpm overlap ?ltf ?ltf [])"
    by (auto simp: filter_tf_def Let_def)
  from keep_loop_kept [OF this]
  have "length (tftarget network (fst row)) > 0" and "map_of (tpmscore tpm_lines) (fst row) \<noteq> None"
    by auto
  then show ?thesis
    using tftarget_nonempty tpmscore_keys by metis
qed

theorem filter_tf_excludes_witness:
  "(''A'', 1) \<in> set (filter_tf [(''A'', 1)] [(''A'', [(''B'', [])]), (''B'', [])] [(''A'', 5)] 20 (98 / 100))
   \<and> has_node [(''A'', [(''B'', [])]), (''B'', [])] ''A''
   \<and> (\<exists>es. succ [(''A'', [(''B'', [])]), (''B'', [])] ''A'' = Inr es \<and> es \<noteq> [])
   \<and> ''A'' \<in> fst ` set [(''A'', 5::real)]"
proof -
  have k: "(''A'', 1) \<in> set (filter_tf [(''A'', 1)] [(''A'', [(''B'', [])]), (''B'', [])] [(''A'', 5)] 20 (98 / 100))"
    by (simp add: filter_tf_def tpmscore_def tftarget_def before_def)
  from filter_tf_excludes [OF k] k show ?thesis by simp
qed

subsection \<open>The expression score of a factor that has no expression record\<close>

text \<open>
  Claim C7. The claim says that a factor that is not in the expression table is scored,
  with the expression score 0. The code guards \<^verbatim>\<open>factor_fc\<close> with
  \<^verbatim>\<open>if node in expression_change else 0\<close>, but reads \<^verbatim>\<open>expression_change[node].score\<close>
  without the guard: on the network with the one edge from A to B and a table that has
  only B, scoring A raises \<^verbatim>\<open>KeyError\<close>.
\<close>

theorem influence_scores_absent_factor:
  "influence_scores mannwhitneyu ''A'' [(''A'', [(''B'', [(''weight'', 1)])]), (''B'', [])]
     [(''B'', \<lparr>score = 1, absfc = 1, realfc = 1\<rparr>)] {''B''} = Inl KeyError"
  by (simp add: influence_scores_def dijkstra_prob_length_def cutoff_distance_def init_search_def
     loop_body_def heappop_def succ_def relax_edge_def vu_dist_def weight_function_def
     entry_less_def search_result_def target_score_def fold_change_scores_def direct_targets_def
     non_direct_targets_def nodes_def out_degree_def)

subsection \<open>The difference network has the edges that gained weight\<close>

lemma edge_data_add_node: "edge_data (add_node G n) u v = edge_data G u v"
  by (auto simp: edge_data_def add_node_def has_node_def map_add_def split: option.splits)

lemma map_of_add_node_self: "map_of (add_node G n) n \<noteq> None"
  by (auto simp: add_node_def has_node_def map_add_def split: option.splits)

lemma map_of_add_node:
  "map_of (add_node G n) a = (if a = n \<and> map_of G n = None then Some [] else map_of G a)"
  by (auto simp: add_node_def has_node_def map_add_def split: option.splits)

lemma edge_data_add_edge:
  "edge_data (add_edge G u v attr) u' v' =
     (if u' = u \<and> v' = v
      then Some (AList.updates (map fst attr) (map snd attr)
                   (case edge_data G u v of None \<Rightarrow> [] | Some d \<Rightarrow> d))
      else edge_data G u' v')"
  unfolding add_edge_def Let_def edge_data_def
  by (auto simp: map_of_add_node update_conv' split: option.splits)

lemma full_attrs_weight:
  "full_attrs gs u v ddict ws wt = Inr attr \<Longrightarrow>
     map_of (AList.updates (map fst attr) (map snd attr) d) ''weight'' = Some (wt - ws)"
  by (auto simp: full_attrs_def updates_conv' split: sum.splits prod.splits)

lemma difference_edge_step:
  assumes "difference_edge full gs gt (u, v, ddict) gd = Inr gd'"
  shows "\<exists>ws wt. edge_attr gs u v ''weight'' = Inr ws \<and> edge_attr gt u v ''weight'' = Inr wt \<and>
           (wt - ws > 0 \<longrightarrow>
              (\<exists>attr. gd' = add_edge gd u v attr \<and>
                   (\<forall>d. map_of (AList.updates (map fst attr) (map snd attr) d) ''weight''
                          = Some (wt - ws)))) \<and>
           (\<not> wt - ws > 0 \<longrightarrow> gd' = gd)"
proof -
  from assms obtain ws wt where
    ws: "edge_attr gs u v ''weight'' = Inr ws" and wt: "edge_attr gt u v ''weight'' = Inr wt"
    by (auto simp: difference_edge_def split: sum.splits)
  show ?thesis
  proof (cases "wt - ws > 0")
    case False
    with assms ws wt show ?thesis by (simp add: difference_edge_def)
  next
    case True
    show ?thesis
    proof (cases full)
      case False
      with assms ws wt True have "gd' = add_edge gd u v [(''weight'', wt - ws)]"
        by (simp add: difference_edge_def)
      moreover have "\<forall>d. map_of (AList.updates (map fst [(''weight'', wt - ws)])
                        (map snd [(''weight'', wt - ws)]) d) ''weight'' = Some (wt - ws)"
        by (simp add: update_conv')
      ultimately show ?thesis using ws wt True by auto
    next
      case full: True
      with assms ws wt True obtain attr where
        a: "full_attrs gs u v ddict ws wt = Inr attr" and g: "gd' = add_edge gd u v attr"
        by (auto simp: difference_edge_def split: sum.splits)
      from full_attrs_weight [OF a] g ws wt True show ?thesis by auto
    qed
  qed
qed

lemma difference_loop_sound:
  assumes "difference_loop full gs gt es gd = Inr gd'"
    and "\<And>u v. diff_edge_ok gs gt gd u v"
  shows "diff_edge_ok gs gt gd' u v"
  using assms
proof (induction es arbitrary: gd)
  case Nil
  then show ?case by simp
next
  case (Cons e es)
  obtain a b ddict where e: "e = (a, b, ddict)" by (cases e) auto
  from Cons.prems(1) obtain g1 where
    s: "difference_edge full gs gt (a, b, ddict) gd = Inr g1"
    and r: "difference_loop full gs gt es g1 = Inr gd'"
    by (auto simp: e split: sum.splits)
  have "diff_edge_ok gs gt g1 x y" for x y
  proof -
    from difference_edge_step [OF s] obtain ws wt where
      ws: "edge_attr gs a b ''weight'' = Inr ws" and wt: "edge_attr gt a b ''weight'' = Inr wt"
      and c: "wt - ws > 0 \<Longrightarrow> \<exists>attr. g1 = add_edge gd a b attr \<and>
                   (\<forall>d. map_of (AList.updates (map fst attr) (map snd attr) d) ''weight''
                          = Some (wt - ws))"
             "\<not> wt - ws > 0 \<Longrightarrow> g1 = gd"
      by blast
    show ?thesis
    proof (cases "wt - ws > 0")
      case True
      with c obtain attr where g1: "g1 = add_edge gd a b attr"
        and w: "\<And>d. map_of (AList.updates (map fst attr) (map snd attr) d) ''weight''
                          = Some (wt - ws)"
        by auto
      show ?thesis
        using Cons.prems(2) [of x y] ws wt True w
        by (auto simp: diff_edge_ok_def g1 edge_data_add_edge)
    next
      case False
      with c have "g1 = gd" by simp
      with Cons.prems(2) [of x y] show ?thesis by simp
    qed
  qed
  from Cons.IH [OF r this] show ?case .
qed

lemma difference_loop_complete:
  assumes "difference_loop full gs gt es gd = Inr gd'"
  shows "(edge_data gd' u v \<noteq> None) =
          (edge_data gd u v \<noteq> None \<or>
           ((\<exists>d. (u, v, d) \<in> set es) \<and>
            (\<exists>ws wt. edge_attr gs u v ''weight'' = Inr ws \<and>
                     edge_attr gt u v ''weight'' = Inr wt \<and> wt - ws > 0)))"
  using assms
proof (induction es arbitrary: gd)
  case Nil
  then show ?case by simp
next
  case (Cons e es)
  obtain a b ddict where e: "e = (a, b, ddict)" by (cases e) auto
  from Cons.prems(1) obtain g1 where
    s: "difference_edge full gs gt (a, b, ddict) gd = Inr g1"
    and r: "difference_loop full gs gt es g1 = Inr gd'"
    by (auto simp: e split: sum.splits)
  have g1: "(edge_data g1 u v \<noteq> None) =
          (edge_data gd u v \<noteq> None \<or>
           ((u, v) = (a, b) \<and>
            (\<exists>ws wt. edge_attr gs u v ''weight'' = Inr ws \<and>
                     edge_attr gt u v ''weight'' = Inr wt \<and> wt - ws > 0)))"
  proof -
    from difference_edge_step [OF s] obtain ws wt where
      ws: "edge_attr gs a b ''weight'' = Inr ws" and wt: "edge_attr gt a b ''weight'' = Inr wt"
      and c: "wt - ws > 0 \<Longrightarrow> \<exists>attr. g1 = add_edge gd a b attr" "\<not> wt - ws > 0 \<Longrightarrow> g1 = gd"
      by blast
    show ?thesis
    proof (cases "wt - ws > 0")
      case True
      with c obtain attr where "g1 = add_edge gd a b attr" by auto
      with ws wt True show ?thesis by (auto simp: edge_data_add_edge)
    next
      case False
      with c have "g1 = gd" by simp
      with ws wt False show ?thesis by auto
    qed
  qed
  show ?case
    unfolding Cons.IH [OF r] g1 e by auto
qed

lemma edge_data_in_edges: "edge_data G u v = Some d \<Longrightarrow> (u, v, d) \<in> set (edges G)"
  by (auto simp: edge_data_def edges_def split: option.splits dest!: map_of_SomeD)

lemma edge_attr_edge_data: "edge_attr G u v k = Inr x \<Longrightarrow> edge_data G u v \<noteq> None"
  by (auto simp: edge_attr_def split: option.splits)

text \<open>
  Claim C3. When \<^verbatim>\<open>difference\<close> returns a network, in the minimal and in the extended
  mode alike, \<open>(u, v)\<close> is one of its edges exactly when it is an edge of the target
  network and the weight it has there minus the weight it has in the source network is
  positive; the edge then carries that difference as its weight, so every edge of the
  difference network has a positive weight.
\<close>

theorem difference_positive_edges:
  assumes "difference grn_source grn_target full_output = Inr grn_diff"
  shows "((edge_data grn_diff u v \<noteq> None) =
           (edge_data grn_target u v \<noteq> None \<and>
            (\<exists>ws wt. edge_attr grn_source u v ''weight'' = Inr ws \<and>
                     edge_attr grn_target u v ''weight'' = Inr wt \<and> wt - ws > 0)))
       \<and> (edge_data grn_diff u v \<noteq> None \<longrightarrow>
           (\<exists>ws wt. edge_attr grn_source u v ''weight'' = Inr ws \<and>
                   edge_attr grn_target u v ''weight'' = Inr wt \<and>
                   edge_attr grn_diff u v ''weight'' = Inr (wt - ws) \<and> wt - ws > 0))"
proof -
  from assms
  have l: "difference_loop full_output grn_source grn_target (edges grn_target) [] = Inr grn_diff"
    by (simp add: difference_def)
  have e: "edge_data [] x y = None" for x y :: 'a
    by (simp add: edge_data_def)
  have "(edge_data grn_diff u v \<noteq> None) =
           (edge_data grn_target u v \<noteq> None \<and>
            (\<exists>ws wt. edge_attr grn_source u v ''weight'' = Inr ws \<and>
                     edge_attr grn_target u v ''weight'' = Inr wt \<and> wt - ws > 0))"
    unfolding difference_loop_complete [OF l] e
    using edge_data_in_edges [of grn_target u v] edge_attr_edge_data [of grn_target u v "''weight''"]
    by auto
  moreover have "diff_edge_ok grn_source grn_target grn_diff u v"
    by (rule difference_loop_sound [OF l]) (simp add: diff_edge_ok_def e)
  then have "edge_data grn_diff u v \<noteq> None \<longrightarrow>
           (\<exists>ws wt. edge_attr grn_source u v ''weight'' = Inr ws \<and>
                   edge_attr grn_target u v ''weight'' = Inr wt \<and>
                   edge_attr grn_diff u v ''weight'' = Inr (wt - ws) \<and> wt - ws > 0)"
    by (auto simp: diff_edge_ok_def edge_attr_def split: option.splits)
  ultimately show ?thesis by blast
qed

lemma example_difference: "difference example_source example_target True = Inr example_diff"
  by (simp add: example_source_def example_target_def example_diff_def difference_def edges_def
      difference_edge_def edge_attr_def edge_data_def full_attrs_def attr_diff_def add_edge_def
      add_node_def has_node_def)

theorem difference_positive_edges_witness:
  "difference example_source example_target True = Inr example_diff
   \<and> edge_data example_diff ''A'' ''B'' \<noteq> None
   \<and> edge_data example_target ''A'' ''B'' \<noteq> None
   \<and> (\<exists>ws wt. edge_attr example_source ''A'' ''B'' ''weight'' = Inr ws \<and>
               edge_attr example_target ''A'' ''B'' ''weight'' = Inr wt \<and>
               edge_attr example_diff ''A'' ''B'' ''weight'' = Inr (wt - ws) \<and> wt - ws > 0)"
proof -
  have "edge_data example_diff ''A'' ''B'' \<noteq> None"
    by (simp add: example_diff_def edge_data_def)
  with difference_positive_edges [OF example_difference, of "''A''" "''B''"] example_difference
  show ?thesis by blast
qed

subsection \<open>The target score of a factor\<close>

lemma target_score_loop_sum:
  assumes "\<forall>k \<in> fst ` set targets. map_of ec k \<noteq> None"
  shows "target_score_loop ec targets ts =
           Inr (ts + (\<Sum>(k, x) \<leftarrow> targets. score (the (map_of ec k)) * x))"
  using assms
  by (induction targets arbitrary: ts) (auto simp: algebra_simps)


lemma sum_list_alist:
  assumes "distinct (map fst xs)"
  shows "(\<Sum>(k, x) \<leftarrow> xs. h k x) = (\<Sum>k \<in> fst ` set xs. h k (the (map_of xs k)))"
  using assms
proof (induction xs)
  case Nil
  then show ?case by simp
next
  case (Cons p xs)
  obtain k x where p: "p = (k, x)" by (cases p) auto
  from Cons.prems p have k: "k \<notin> fst ` set xs" and d: "distinct (map fst xs)" by auto
  have "(\<Sum>j \<in> fst ` set xs. h j (the (map_of (p # xs) j))) =
        (\<Sum>j \<in> fst ` set xs. h j (the (map_of xs j)))"
    using k by (intro sum.cong) (auto simp: p)
  with Cons.IH [OF d] k show ?case by (simp add: p)
qed

lemma map_of_filter_key:
  "map_of (filter (\<lambda>(k, v). P k) xs) k = (if P k then map_of xs k else None)"
  by (induction xs) auto

lemma filter_key_image: "fst ` set (filter (\<lambda>(k, v). k \<in> S) xs) = fst ` set xs \<inter> S"
  by (auto simp: image_iff)

text \<open>
  Claim C2. Let the search from a factor with the cutoff 0.6 return \<open>weights\<close>, the
  reached nodes with their probabilities, let every differentially expressed gene have
  an expression record, and let the factor have one. Then the factor is scored, its
  target score is the sum over the reached, differentially expressed genes of the
  gene's expression score times its reached probability, and \<open>directTargets\<close> is the
  out-degree of the factor in the network.
\<close>

theorem influence_scores_target_score:
  assumes "dijkstra_prob_length grn node ''weight'' (6 / 10) None = Inr (paths, weights)"
    and "de_genes \<subseteq> fst ` set expression_change"
    and "map_of expression_change node = Some g"
    and "fold_change_scores mannwhitneyu node grn expression_change = Inr (p, fc)"
  shows "\<exists>r. influence_scores mannwhitneyu node grn expression_change de_genes = Inr r
           \<and> targetscore r =
               (\<Sum>k \<in> fst ` set weights \<inter> de_genes.
                  score (the (map_of expression_change k)) * the (map_of weights k))
           \<and> out_degree grn node = Inr (directTargets r)"
proof -
  let ?de = "filter (\<lambda>(k, v). k \<in> de_genes) weights"
  have dw: "distinct (map fst ?de)"
    using dijkstra_weights_distinct [OF assms(1)] by (simp add: distinct_map_filter)
  have "\<forall>k \<in> fst ` set ?de. map_of expression_change k \<noteq> None"
    using assms(2) by (auto simp: map_of_eq_None_iff)
  from target_score_loop_sum [OF this, of 0]
  have "target_score expression_change ?de =
          Inr (\<Sum>(k, x) \<leftarrow> ?de. score (the (map_of expression_change k)) * x)"
    by (simp add: target_score_def)
  also have "(\<Sum>(k, x) \<leftarrow> ?de. score (the (map_of expression_change k)) * x) =
      (\<Sum>k \<in> fst ` set ?de. score (the (map_of expression_change k)) * the (map_of ?de k))"
    by (rule sum_list_alist [OF dw])
  also have "\<dots> = (\<Sum>k \<in> fst ` set weights \<inter> de_genes.
                  score (the (map_of expression_change k)) * the (map_of weights k))"
    unfolding filter_key_image by (intro sum.cong) (auto simp: map_of_filter_key)
  finally have ts: "target_score expression_change ?de =
     Inr (\<Sum>k \<in> fst ` set weights \<inter> de_genes.
                  score (the (map_of expression_change k)) * the (map_of weights k))" .
  from dijkstra_source_node [OF assms(1)] obtain es where "succ grn node = Inr es" by blast
  then have od: "out_degree grn node = Inr (length es)"
    by (auto simp: succ_def out_degree_def split: option.splits)
  show ?thesis
    unfolding influence_scores_def assms(1)
    by (simp add: assms(3,4) ts od)
qed

lemma example_reach:
  "dijkstra_prob_length example_grn ''A'' ''weight'' (6 / 10) None =
     Inr ([(''B'', [''A'', ''B'']), (''C'', [''A'', ''C''])], [(''C'', 9 / 10), (''B'', 7 / 10)])"
  by (simp add: search_defs example_grn_def)

lemma example_fold_change:
  "fold_change_scores example_ranktest ''A'' example_grn example_expression =
     Inr (Num (1 / 2), Num (- 1))"
  by (simp add: fold_change_scores_def succ_def example_grn_def example_expression_def
      direct_targets_def non_direct_targets_def nodes_def absfc_list_def List.map_filter_def
      try_ranktest_def example_ranktest_def mean_def Let_def)

theorem influence_scores_target_score_witness:
  "dijkstra_prob_length example_grn ''A'' ''weight'' (6 / 10) None =
     Inr ([(''B'', [''A'', ''B'']), (''C'', [''A'', ''C''])], [(''C'', 9 / 10), (''B'', 7 / 10)])
   \<and> {''B''} \<subseteq> fst ` set example_expression
   \<and> map_of example_expression ''A'' = Some \<lparr>score = 2, absfc = 2, realfc = 2\<rparr>
   \<and> fold_change_scores example_ranktest ''A'' example_grn example_expression =
       Inr (Num (1 / 2), Num (- 1))
   \<and> (\<exists>r. influence_scores example_ranktest ''A'' example_grn example_expression {''B''} = Inr r
         \<and> targetscore r = 21 / 20
         \<and> out_degree example_grn ''A'' = Inr (directTargets r)
         \<and> directTargets r = 2)"
proof -
  have s: "{''B''} \<subseteq> fst ` set example_expression"
    and m: "map_of example_expression ''A'' = Some \<lparr>score = 2, absfc = 2, realfc = 2\<rparr>"
    by (simp_all add: example_expression_def)
  have o: "out_degree example_grn ''A'' = Inr 2"
    by (simp add: out_degree_def example_grn_def)
  have e: "(\<Sum>k \<in> fst ` set [(''C'', 9 / 10), (''B'', 7 / 10 :: real)] \<inter> {''B''}.
              score (the (map_of example_expression k))
                * the (map_of [(''C'', 9 / 10), (''B'', 7 / 10)] k)) = 21 / 20"
    by (simp add: example_expression_def)
  from influence_scores_target_score [OF example_reach s m example_fold_change]
  show ?thesis
    using example_reach s m example_fold_change o unfolding e by auto
qed

subsection \<open>The fold changes of direct and other targets\<close>

lemma absfc_list_map:
  assumes "\<forall>t \<in> set ts. map_of ec t \<noteq> None"
  shows "absfc_list ec ts = map (\<lambda>t. absfc (the (map_of ec t))) ts"
  using assms by (induction ts) (auto simp: absfc_list_def List.map_filter_def)

lemma direct_targets_set:
  "set (direct_targets es ec) = fst ` set es \<inter> fst ` set ec"
  by (auto simp: direct_targets_def map_of_eq_None_iff)

lemma non_direct_targets_set:
  "set (non_direct_targets grn ec direct) = (set (nodes grn) \<inter> fst ` set ec) - set direct"
  by (auto simp: non_direct_targets_def map_of_eq_None_iff)

text \<open>
  Claim C8. For a factor that is a node of the network, let \<open>direct\<close> be its successors
  that have an expression record and \<open>non_direct\<close> the other nodes that have one.
  \<^verbatim>\<open>fold_change_scores\<close> returns the pair of not-a-numbers exactly when one of the two
  is empty. Otherwise, when the rank test returns the p-value \<open>p\<close> for the absolute fold
  changes of the two sets, the result is \<open>p\<close> with the difference of their means.
\<close>

theorem fold_change_scores_sentinel:
  assumes "succ grn node = Inr es"
    and "direct = direct_targets es expression_change"
    and "non_direct = non_direct_targets grn expression_change direct"
    and "tfc = map (\<lambda>t. absfc (the (map_of expression_change t))) direct"
    and "nfc = map (\<lambda>t. absfc (the (map_of expression_change t))) non_direct"
  shows "set direct = fst ` set es \<inter> fst ` set expression_change
       \<and> set non_direct = (set (nodes grn) \<inter> fst ` set expression_change) - set direct
       \<and> ((fold_change_scores mannwhitneyu node grn expression_change = Inr (NaN, NaN))
            = (direct = [] \<or> non_direct = []))
       \<and> (direct \<noteq> [] \<and> non_direct \<noteq> [] \<and> mannwhitneyu tfc nfc = Inr p \<longrightarrow>
            fold_change_scores mannwhitneyu node grn expression_change
              = Inr (p, Num (mean tfc - mean nfc)))"
proof -
  have d: "\<forall>t \<in> set direct. map_of expression_change t \<noteq> None"
    unfolding assms(2) direct_targets_set by (auto simp: map_of_eq_None_iff)
  have n: "\<forall>t \<in> set non_direct. map_of expression_change t \<noteq> None"
    unfolding assms(3) non_direct_targets_set by (auto simp: map_of_eq_None_iff)
  have tf: "absfc_list expression_change direct = tfc"
    using absfc_list_map [OF d] assms(4) by simp
  have nf: "absfc_list expression_change non_direct = nfc"
    using absfc_list_map [OF n] assms(5) by simp
  have f: "fold_change_scores mannwhitneyu node grn expression_change =
      (if direct = [] \<or> non_direct = [] then Inr (NaN, NaN)
       else (case try_ranktest mannwhitneyu tfc nfc of
               Inl err \<Rightarrow> Inl err
             | Inr pv \<Rightarrow> Inr (pv, Num (mean tfc - mean nfc))))"
    unfolding fold_change_scores_def assms(1)
    by (simp add: Let_def assms(2) [symmetric] assms(3) [symmetric] tf nf)
  have 1: "(fold_change_scores mannwhitneyu node grn expression_change = Inr (NaN, NaN))
            = (direct = [] \<or> non_direct = [])"
    unfolding f by (auto split: sum.splits)
  have 2: "direct \<noteq> [] \<and> non_direct \<noteq> [] \<and> mannwhitneyu tfc nfc = Inr p \<longrightarrow>
            fold_change_scores mannwhitneyu node grn expression_change
              = Inr (p, Num (mean tfc - mean nfc))"
    unfolding f by (auto simp: try_ranktest_def)
  show ?thesis
    using 1 2 direct_targets_set [of es expression_change]
      non_direct_targets_set [of grn expression_change direct]
    unfolding assms(2) [symmetric] assms(3) [symmetric] by blast
qed

theorem fold_change_scores_sentinel_witness:
  "succ example_grn ''A'' = Inr [(''B'', [(''weight'', 7 / 10)]), (''C'', [(''weight'', 9 / 10)])]
   \<and> direct_targets [(''B'', [(''weight'', 7 / 10)]), (''C'', [(''weight'', 9 / 10)])]
        example_expression = [''B'', ''C'']
   \<and> non_direct_targets example_grn example_expression [''B'', ''C''] = [''A'']
   \<and> example_ranktest [3 / 2, 1 / 2] [2] = Inr (Num (1 / 2))
   \<and> fold_change_scores example_ranktest ''A'' example_grn example_expression
       = Inr (Num (1 / 2), Num (mean [3 / 2, 1 / 2] - mean [2]))
   \<and> fold_change_scores example_ranktest ''A'' example_grn example_expression \<noteq> Inr (NaN, NaN)"
proof -
  have s: "succ example_grn ''A'' = Inr [(''B'', [(''weight'', 7 / 10)]), (''C'', [(''weight'', 9 / 10)])]"
    by (simp add: succ_def example_grn_def)
  have d: "[''B'', ''C''] = direct_targets [(''B'', [(''weight'', 7 / 10)]), (''C'', [(''weight'', 9 / 10)])]
        example_expression"
    by (simp add: direct_targets_def example_expression_def)
  have n: "[''A''] = non_direct_targets example_grn example_expression [''B'', ''C'']"
    by (simp add: non_direct_targets_def example_expression_def example_grn_def nodes_def)
  have t: "[3 / 2, 1 / 2] = map (\<lambda>t. absfc (the (map_of example_expression t))) [''B'', ''C'']"
    and nt: "[2] = map (\<lambda>t. absfc (the (map_of example_expression t))) [''A'']"
    by (simp_all add: example_expression_def)
  have r: "example_ranktest [3 / 2, 1 / 2] [2] = Inr (Num (1 / 2))"
    by (simp add: example_ranktest_def)
  from fold_change_scores_sentinel [OF s d n t nt, of example_ranktest "Num (1 / 2)"] r
  have "fold_change_scores example_ranktest ''A'' example_grn example_expression
       = Inr (Num (1 / 2), Num (mean [3 / 2, 1 / 2] - mean [2]))"
    by simp
  then show ?thesis
    using s d [symmetric] n [symmetric] r by simp
qed

subsection \<open>The score table does not depend on the number of workers\<close>

lemma pool_run_fold:
  "fold (\<lambda>k finished. if k < length jobs then finished(k \<mapsto> jobs ! k) else finished) sched m k
     = (if k \<in> set sched \<and> k < length jobs then Some (jobs ! k) else m k)"
  by (induction sched arbitrary: m) auto

lemma pool_run_get:
  assumes "k < length jobs" and "k \<in> set sched"
  shows "get (pool_run jobs sched) k = jobs ! k"
  using assms by (simp add: get_def pool_run_def pool_run_fold)

lemma pool_run_all:
  assumes "{..< length jobs} \<subseteq> set sched"
  shows "map (get (pool_run jobs sched)) [0 ..< length jobs] = jobs"
proof (rule nth_equalityI)
  show "length (map (get (pool_run jobs sched)) [0 ..< length jobs]) = length jobs" by simp
next
  fix i assume "i < length (map (get (pool_run jobs sched)) [0 ..< length jobs])"
  then have i: "i < length jobs" by simp
  with assms have "i \<in> set sched" by auto
  from pool_run_get [OF i this] i
  show "map (get (pool_run jobs sched)) [0 ..< length jobs] ! i = jobs ! i" by simp
qed

text \<open>
  Claim C4. With more than one worker, whatever the order \<open>sched\<close> is in which the
  workers finish the jobs (each job is finished), \<^verbatim>\<open>run_target_score\<close> writes the
  same lines, in the same order, as with one worker; and it raises the same error when a
  factor cannot be scored.
\<close>

theorem run_target_score_worker_count:
  assumes "1 < ncore"
    and "{..< length (scored_tfs set_order grn expression_change)} \<subseteq> set sched"
  shows "run_target_score mannwhitneyu set_order ncore sched grn expression_change
       = run_target_score mannwhitneyu set_order 1 sched' grn expression_change"
proof -
  let ?de = "scored_tfs set_order grn expression_change"
  have "map (get (pool_run (map f ?de) sched)) [0 ..< length ?de] = map f ?de" for f :: "'a \<Rightarrow> error + 'a score_record"
    using pool_run_all [of "map f ?de" sched] assms(2) by simp
  then show ?thesis
    using assms(1) by (simp add: run_target_score_def Let_def scored_tfs_def)
qed

lemma example_scored_tfs:
  "scored_tfs remdups example_grn2 example_expression2 = [''A'', ''D'']"
  by (simp add: scored_tfs_def example_grn2_def example_grn_def example_expression2_def
      example_expression_def nodes_def out_degree_def)

lemma example_run_target_score:
  "run_target_score example_ranktest remdups 1 [] example_grn2 example_expression2 =
     Inr [\<lparr>factor = ''A'', directTargets = 2, totalTargets = 2, targetscore = 21 / 20,
            Gscore = 2, factor_fc = 2, pval = Num (1 / 2), target_fc = Num (- (1 / 2))\<rparr>,
          \<lparr>factor = ''D'', directTargets = 1, totalTargets = 1, targetscore = 6 / 5,
            Gscore = 1, factor_fc = 1, pval = Num (1 / 2), target_fc = Num (1 / 3)\<rparr>]"
  by (simp add: run_target_score_def example_grn2_def example_grn_def example_expression2_def
      example_expression_def nodes_def out_degree_def influence_scores_def search_defs
      target_score_def fold_change_scores_def direct_targets_def non_direct_targets_def
      absfc_list_def List.map_filter_def try_ranktest_def example_ranktest_def mean_def)

theorem run_target_score_worker_count_witness:
  "(1 :: nat) < 2
   \<and> {..< length (scored_tfs remdups example_grn2 example_expression2)} \<subseteq> set [1, 0]
   \<and> run_target_score example_ranktest remdups 2 [1, 0] example_grn2 example_expression2
       = run_target_score example_ranktest remdups 1 [] example_grn2 example_expression2
   \<and> run_target_score example_ranktest remdups 2 [1, 0] example_grn2 example_expression2 =
     Inr [\<lparr>factor = ''A'', directTargets = 2, totalTargets = 2, targetscore = 21 / 20,
            Gscore = 2, factor_fc = 2, pval = Num (1 / 2), target_fc = Num (- (1 / 2))\<rparr>,
          \<lparr>factor = ''D'', directTargets = 1, totalTargets = 1, targetscore = 6 / 5,
            Gscore = 1, factor_fc = 1, pval = Num (1 / 2), target_fc = Num (1 / 3)\<rparr>]"
proof -
  have n: "(1 :: nat) < 2" by simp
  have s: "{..< length (scored_tfs remdups example_grn2 example_expression2)} \<subseteq> set [1, 0]"
    unfolding example_scored_tfs by auto
  from run_target_score_worker_count [OF n s, of example_ranktest "[]"] example_run_target_score n s
  show ?thesis by simp
qed

subsection \<open>What the search keeps in its state\<close>

lemma relax_edge_cases:
  assumes "map_of (paths_of st) v = Some pv" and "map_of (dist_of st) v = Some dv" and "pv \<noteq> []"
  shows "relax_edge w c v (u, e) st =
     (let d = vu_dist dv (weight_function w e) (length pv) in
      if over_cutoff c d then Inr st
      else (case map_of (dist_of st) u of
              Some du \<Rightarrow> if d < du then Inl ValueError_contradictory else Inr st
            | None \<Rightarrow> if improves st u d then Inr (pushed st u d pv) else Inr st))"
  using assms
  by (simp add: relax_edge_def Let_def over_cutoff_def improves_def pushed_def
      split: option.splits)

lemma relax_edge_errors:
  "relax_edge w c v (u, e) st =
     (case map_of (paths_of st) v of None \<Rightarrow> Inl KeyError
      | Some pv \<Rightarrow>
        (case map_of (dist_of st) v of None \<Rightarrow> Inl KeyError
         | Some dv \<Rightarrow> if pv = [] then Inl ZeroDivisionError
            else relax_edge w c v (u, e) st))"
  by (simp add: relax_edge_def split: option.splits)

lemma set_heappush: "set (heappush fr x) = insert x (set fr)"
  by (induction fr) auto

lemma sorted_heappush:
  "sorted_wrt (\<lambda>a b. \<not> entry_less b a) fr \<Longrightarrow> sorted_wrt (\<lambda>a b. \<not> entry_less b a) (heappush fr x)"
  by (induction fr) (auto simp: set_heappush entry_less_def)

lemma weight_function_nonneg:
  assumes "unit_weights G w" and "map_of G v = Some ues" and "(u, e) \<in> set ues"
  shows "0 \<le> weight_function w e"
proof (cases "map_of e w")
  case None
  then show ?thesis by (simp add: weight_function_def)
next
  case (Some x)
  with assms have "0 < x" "x \<le> 1" unfolding unit_weights_def by blast+
  then have "log 10 x \<le> 0" by simp
  with Some show ?thesis by (simp add: weight_function_def)
qed

lemma vu_dist_ge:
  assumes "0 \<le> cost" and "0 < len"
  shows "dv \<le> vu_dist dv cost len"
proof (cases "len > 1")
  case False
  with assms have "len = 1" by simp
  with assms show ?thesis by (simp add: vu_dist_def)
next
  case True
  then have a: "0 < 1 / real len" and b: "0 < 1 / real (len - 1)"
    and c: "1 / real len \<le> 1 / real (len - 1)"
    by (simp_all add: frac_le)
  have "log 10 (1 / real len) \<le> log 10 (1 / real (len - 1))"
    using log_le_cancel_iff [of 10 "1 / real len" "1 / real (len - 1)"] a b c by simp
  with assms True show ?thesis by (simp add: vu_dist_def Let_def)
qed

lemma relax_edge_Inr:
  assumes "relax_edge w c v (u, e) st = Inr st'"
  shows "st' = st \<or>
         (\<exists>pv dv. map_of (paths_of st) v = Some pv \<and> pv \<noteq> [] \<and>
            map_of (dist_of st) v = Some dv \<and>
            \<not> over_cutoff c (vu_dist dv (weight_function w e) (length pv)) \<and>
            map_of (dist_of st) u = None \<and>
            improves st u (vu_dist dv (weight_function w e) (length pv)) \<and>
            st' = pushed st u (vu_dist dv (weight_function w e) (length pv)) pv)"
proof -
  from assms obtain pv dv where
    p: "map_of (paths_of st) v = Some pv" and d: "map_of (dist_of st) v = Some dv"
    and n: "pv \<noteq> []"
    by (auto simp: relax_edge_def split: option.splits if_splits)
  from assms show ?thesis
    unfolding relax_edge_cases [OF p d n] Let_def
    using p d n by (auto split: if_splits option.splits)
qed

lemma fringe_ok_pushed:
  assumes "fringe_ok st" and "map_of (dist_of st) u = None" and "improves st u d"
  shows "fringe_ok (pushed st u d pv)"
proof -
  let ?st = "pushed st u d pv"
  have 1: "fringe_sorted ?st"
    using assms(1) by (simp add: fringe_ok_def fringe_sorted_def pushed_def sorted_heappush)
  have 2: "\<exists>s. map_of (seen_of ?st) (snd (snd x)) = Some s \<and> s \<le> fst x"
    if "x \<in> set (fringe_of ?st)" for x
  proof (cases "x = (d, count_of st, u)")
    case True
    then show ?thesis by (simp add: pushed_def update_conv')
  next
    case False
    with that have x: "x \<in> set (fringe_of st)" by (simp add: pushed_def set_heappush)
    with assms(1) obtain s where s: "map_of (seen_of st) (snd (snd x)) = Some s" "s \<le> fst x"
      unfolding fringe_ok_def by blast
    show ?thesis
    proof (cases "snd (snd x) = u")
      case True
      with s assms(3) have "d < s" by (simp add: improves_def)
      with s True show ?thesis by (simp add: pushed_def update_conv')
    next
      case False
      with s show ?thesis by (simp add: pushed_def update_conv')
    qed
  qed
  have 3: "\<exists>k. (s, k, a) \<in> set (fringe_of ?st)"
    if "map_of (seen_of ?st) a = Some s" "map_of (dist_of ?st) a = None" for a s
  proof (cases "a = u")
    case True
    with that have "s = d" by (simp add: pushed_def update_conv')
    with True show ?thesis by (auto simp: pushed_def set_heappush)
  next
    case False
    with that have "map_of (seen_of st) a = Some s" "map_of (dist_of st) a = None"
      by (simp_all add: pushed_def update_conv')
    with assms(1) obtain k where "(s, k, a) \<in> set (fringe_of st)"
      unfolding fringe_ok_def by blast
    then show ?thesis by (auto simp: pushed_def set_heappush)
  qed
  have 4: "map_of (seen_of ?st) a = Some da" if "map_of (dist_of ?st) a = Some da" for a da
  proof -
    from that have a: "map_of (dist_of st) a = Some da" by (simp add: pushed_def)
    with assms(2) have "a \<noteq> u" by auto
    moreover from a assms(1) have "map_of (seen_of st) a = Some da"
      unfolding fringe_ok_def by blast
    ultimately show ?thesis by (simp add: pushed_def update_conv')
  qed
  have 5: "fst (snd x) < count_of ?st" if "x \<in> set (fringe_of ?st)" for x
  proof (cases "x = (d, count_of st, u)")
    case True
    then show ?thesis by (simp add: pushed_def)
  next
    case False
    with that have "x \<in> set (fringe_of st)" by (simp add: pushed_def set_heappush)
    with assms(1) have "fst (snd x) < count_of st" unfolding fringe_ok_def by blast
    then show ?thesis by (simp add: pushed_def)
  qed
  show ?thesis
    unfolding fringe_ok_def using 1 2 3 4 5 by blast
qed

lemma fringe_ok_head:
  assumes "fringe_ok st" and "fringe_of st = (d, k, v) # rest" and "map_of (dist_of st) v = None"
  shows "map_of (seen_of st) v = Some d"
proof -
  from assms(1,2) obtain s where s: "map_of (seen_of st) v = Some s" "s \<le> d"
    unfolding fringe_ok_def by fastforce
  with assms(1,3) obtain k' where "(s, k', v) \<in> set (fringe_of st)"
    unfolding fringe_ok_def by blast
  with assms(2) have "(s, k', v) = (d, k, v) \<or> (s, k', v) \<in> set rest" by simp
  then have "d \<le> s"
  proof
    assume "(s, k', v) = (d, k, v)"
    then show ?thesis by simp
  next
    assume "(s, k', v) \<in> set rest"
    moreover from assms(1,2) have "\<forall>y \<in> set rest. \<not> entry_less y (d, k, v)"
      by (simp add: fringe_ok_def fringe_sorted_def)
    ultimately have "\<not> entry_less (s, k', v) (d, k, v)" by blast
    then show ?thesis by (simp add: entry_less_def)
  qed
  with s show ?thesis by simp
qed

lemma fringe_ok_visit:
  assumes "fringe_ok st" and "fringe_of st = (d, k, v) # rest" and "map_of (dist_of st) v = None"
  shows "fringe_ok (st\<lparr>fringe_of := rest, dist_of := AList.update v d (dist_of st)\<rparr>)"
proof -
  let ?st = "st\<lparr>fringe_of := rest, dist_of := AList.update v d (dist_of st)\<rparr>"
  note h = fringe_ok_head [OF assms]
  have 1: "fringe_sorted ?st"
    using assms(1,2) by (simp add: fringe_ok_def fringe_sorted_def)
  have 2: "\<exists>s. map_of (seen_of ?st) (snd (snd x)) = Some s \<and> s \<le> fst x"
    if "x \<in> set (fringe_of ?st)" for x
    using that assms(1,2) unfolding fringe_ok_def by simp
  have 3: "\<exists>k. (s, k, a) \<in> set (fringe_of ?st)"
    if "map_of (seen_of ?st) a = Some s" "map_of (dist_of ?st) a = None" for a s
  proof -
    from that have a: "a \<noteq> v" "map_of (seen_of st) a = Some s" "map_of (dist_of st) a = None"
      by (auto simp: update_conv' split: if_splits)
    with assms(1) obtain k' where "(s, k', a) \<in> set (fringe_of st)"
      unfolding fringe_ok_def by blast
    with assms(2) a(1) show ?thesis by auto
  qed
  have 4: "map_of (seen_of ?st) a = Some da" if "map_of (dist_of ?st) a = Some da" for a da
    using that h assms(1) unfolding fringe_ok_def by (auto simp: update_conv' split: if_splits)
  have 5: "fst (snd x) < count_of ?st" if "x \<in> set (fringe_of ?st)" for x
    using that assms(1,2) unfolding fringe_ok_def by simp
  show ?thesis
    unfolding fringe_ok_def using 1 2 3 4 5 by blast
qed

lemma fringe_ok_skip:
  assumes "fringe_ok st" and "fringe_of st = (d, k, v) # rest" and "map_of (dist_of st) v \<noteq> None"
  shows "fringe_ok (st\<lparr>fringe_of := rest\<rparr>)"
proof -
  let ?st = "st\<lparr>fringe_of := rest\<rparr>"
  have 1: "fringe_sorted ?st"
    using assms(1,2) by (simp add: fringe_ok_def fringe_sorted_def)
  have 2: "\<exists>s. map_of (seen_of ?st) (snd (snd x)) = Some s \<and> s \<le> fst x"
    if "x \<in> set (fringe_of ?st)" for x
    using that assms(1,2) unfolding fringe_ok_def by simp
  have 3: "\<exists>k. (s, k, a) \<in> set (fringe_of ?st)"
    if "map_of (seen_of ?st) a = Some s" "map_of (dist_of ?st) a = None" for a s
  proof -
    from that assms(3) have a: "a \<noteq> v" "map_of (seen_of st) a = Some s" "map_of (dist_of st) a = None"
      by auto
    with assms(1) obtain k' where "(s, k', a) \<in> set (fringe_of st)"
      unfolding fringe_ok_def by blast
    with assms(2) a(1) show ?thesis by auto
  qed
  have 4: "map_of (seen_of ?st) a = Some da" if "map_of (dist_of ?st) a = Some da" for a da
    using that assms(1) unfolding fringe_ok_def by simp
  have 5: "fst (snd x) < count_of ?st" if "x \<in> set (fringe_of ?st)" for x
    using that assms(1,2) unfolding fringe_ok_def by simp
  show ?thesis
    unfolding fringe_ok_def using 1 2 3 4 5 by blast
qed

lemma fringe_ok_init: "fringe_ok (init_search source)"
  by (simp add: fringe_ok_def fringe_sorted_def init_search_def)

lemma paths_ok_pushed:
  assumes "paths_ok source st" and "map_of (dist_of st) u = None" and "pv \<noteq> []"
    and "map_of (dist_of st) v \<noteq> None"
  shows "paths_ok source (pushed st u d pv)"
proof -
  let ?st = "pushed st u d pv"
  from assms(1,4) have src: "map_of (dist_of st) source \<noteq> None"
    unfolding paths_ok_def by auto
  with assms(2) have us: "u \<noteq> source" by auto
  have 1: "\<exists>p. map_of (paths_of ?st) a = Some p \<and> p \<noteq> []" if "map_of (seen_of ?st) a \<noteq> None" for a
  proof (cases "a = u")
    case True
    then show ?thesis by (simp add: pushed_def update_conv')
  next
    case False
    with that assms(1) show ?thesis
      unfolding paths_ok_def by (simp add: pushed_def update_conv')
  qed
  have 2: "map_of (paths_of ?st) source = Some [source]"
    using assms(1) us unfolding paths_ok_def by (simp add: pushed_def update_conv')
  have 3: "length p > 1" if "map_of (paths_of ?st) a = Some p" "a \<noteq> source" for a p
  proof (cases "a = u")
    case True
    with that assms(3) show ?thesis by (auto simp: pushed_def update_conv')
  next
    case False
    with that assms(1) show ?thesis
      unfolding paths_ok_def by (simp add: pushed_def update_conv')
  qed
  have 4: "map_of (dist_of ?st) source \<noteq> None"
    using src by (simp add: pushed_def)
  show ?thesis
    unfolding paths_ok_def using 1 2 3 4 by blast
qed

lemma justified_pushed:
  assumes "justified G w source st" and "map_of (dist_of st) u = None"
    and "map_of (dist_of st) v = Some dv" and "map_of (paths_of st) v = Some pv"
    and "succ G v = Inr ues" and "(u, e) \<in> set ues"
  shows "justified G w source (pushed st u (vu_dist dv (weight_function w e) (length pv)) pv)"
  unfolding justified_def
proof (intro allI impI)
  let ?d = "vu_dist dv (weight_function w e) (length pv)"
  let ?st = "pushed st u ?d pv"
  fix a s assume a: "map_of (seen_of ?st) a = Some s \<and> a \<noteq> source"
  have keep: "map_of (paths_of ?st) b = map_of (paths_of st) b" if "map_of (dist_of st) b \<noteq> None" for b
    using that assms(2) by (auto simp: pushed_def update_conv')
  show "\<exists>v ues e pv dv.
           map_of (dist_of ?st) v = Some dv \<and> map_of (paths_of ?st) v = Some pv \<and>
           succ G v = Inr ues \<and> (a, e) \<in> set ues \<and>
           map_of (paths_of ?st) a = Some (pv @ [a]) \<and>
           s = vu_dist dv (weight_function w e) (length pv)"
  proof (cases "a = u")
    case True
    with a have s: "s = ?d" by (simp add: pushed_def update_conv')
    have "map_of (dist_of ?st) v = Some dv" using assms(3) by (simp add: pushed_def)
    moreover have "map_of (paths_of ?st) v = Some pv" using keep [of v] assms(3,4) by simp
    moreover have "map_of (paths_of ?st) a = Some (pv @ [a])"
      using True by (simp add: pushed_def update_conv')
    ultimately show ?thesis using assms(5,6) s True by blast
  next
    case False
    with a have "map_of (seen_of st) a = Some s \<and> a \<noteq> source"
      by (simp add: pushed_def update_conv')
    with assms(1) obtain v' ues' e' pv' dv' where
      j: "map_of (dist_of st) v' = Some dv'" "map_of (paths_of st) v' = Some pv'"
         "succ G v' = Inr ues'" "(a, e') \<in> set ues'"
         "map_of (paths_of st) a = Some (pv' @ [a])"
         "s = vu_dist dv' (weight_function w e') (length pv')"
      unfolding justified_def by blast
    have "map_of (dist_of ?st) v' = Some dv'" using j(1) by (simp add: pushed_def)
    moreover have "map_of (paths_of ?st) v' = Some pv'" using keep [of v'] j(1,2) by simp
    moreover have "map_of (paths_of ?st) a = Some (pv' @ [a])"
      using False j(5) by (simp add: pushed_def update_conv')
    ultimately show ?thesis using j(3,4,6) by blast
  qed
qed

lemma search_inv_relax_edge:
  assumes "search_inv G w source st" and "map_of (dist_of st) v \<noteq> None"
    and "succ G v = Inr ues" and "(u, e) \<in> set ues"
    and "relax_edge w c v (u, e) st = Inr st'"
  shows "search_inv G w source st'"
proof -
  from relax_edge_Inr [OF assms(5)] show ?thesis
  proof
    assume "st' = st"
    with assms(1) show ?thesis by simp
  next
    assume "\<exists>pv dv. map_of (paths_of st) v = Some pv \<and> pv \<noteq> [] \<and>
            map_of (dist_of st) v = Some dv \<and>
            \<not> over_cutoff c (vu_dist dv (weight_function w e) (length pv)) \<and>
            map_of (dist_of st) u = None \<and>
            improves st u (vu_dist dv (weight_function w e) (length pv)) \<and>
            st' = pushed st u (vu_dist dv (weight_function w e) (length pv)) pv"
    then obtain pv dv where
      p: "map_of (paths_of st) v = Some pv" "pv \<noteq> []" "map_of (dist_of st) v = Some dv"
         "map_of (dist_of st) u = None"
         "improves st u (vu_dist dv (weight_function w e) (length pv))"
         "st' = pushed st u (vu_dist dv (weight_function w e) (length pv)) pv"
      by blast
    from assms(1) have f: "fringe_ok st" and q: "paths_ok source st" and j: "justified G w source st"
      by (simp_all add: search_inv_def)
    show ?thesis
      unfolding search_inv_def p(6)
      using fringe_ok_pushed [OF f p(4,5)] paths_ok_pushed [OF q p(4) p(2) assms(2)]
        justified_pushed [OF j p(4) p(3) p(1) assms(3,4)]
      by simp
  qed
qed

lemma search_inv_relax:
  assumes "relax w c v ues st = Inr st'" and "search_inv G w source st"
    and "map_of (dist_of st) v \<noteq> None" and "succ G v = Inr ues"
  shows "search_inv G w source st'"
proof -
  have "search_inv G w source st' \<and> dist_of st' = dist_of st"
  proof (rule relax_rule [OF assms(1), where P = "\<lambda>s. search_inv G w source s \<and> dist_of s = dist_of st"])
    show "search_inv G w source st \<and> dist_of st = dist_of st" using assms(2) by simp
  next
    fix ue s s'
    assume ue: "ue \<in> set ues" and s: "search_inv G w source s \<and> dist_of s = dist_of st"
      and r: "relax_edge w c v ue s = Inr s'"
    obtain u e where [simp]: "ue = (u, e)" by (cases ue) auto
    from s assms(3) have "map_of (dist_of s) v \<noteq> None" by simp
    from search_inv_relax_edge [OF _ this assms(4), of w source u e c s'] s ue r
      relax_edge_dist [OF r]
    show "search_inv G w source s' \<and> dist_of s' = dist_of st" by simp
  qed
  then show ?thesis ..
qed

lemma search_inv_visit:
  assumes "search_inv G w source st" and "fringe_of st = (d, k, v) # rest"
    and "map_of (dist_of st) v = None"
  shows "search_inv G w source (st\<lparr>fringe_of := rest, dist_of := AList.update v d (dist_of st)\<rparr>)"
proof -
  let ?st = "st\<lparr>fringe_of := rest, dist_of := AList.update v d (dist_of st)\<rparr>"
  from assms(1) have f: "fringe_ok st" and q: "paths_ok source st" and j: "justified G w source st"
    by (simp_all add: search_inv_def)
  have "map_of (dist_of ?st) source \<noteq> None"
    using q assms(2) unfolding paths_ok_def by (auto simp: update_conv')
  with q have 1: "paths_ok source ?st" unfolding paths_ok_def by simp
  have 2: "justified G w source ?st"
    unfolding justified_def
  proof (intro allI impI)
    fix a s assume "map_of (seen_of ?st) a = Some s \<and> a \<noteq> source"
    with j obtain v' ues' e' pv' dv' where
      j': "map_of (dist_of st) v' = Some dv'" "map_of (paths_of st) v' = Some pv'"
         "succ G v' = Inr ues'" "(a, e') \<in> set ues'"
         "map_of (paths_of st) a = Some (pv' @ [a])"
         "s = vu_dist dv' (weight_function w e') (length pv')"
      unfolding justified_def by auto blast
    from j'(1) assms(3) have "v' \<noteq> v" by auto
    with j'(1) have "map_of (dist_of ?st) v' = Some dv'" by (simp add: update_conv')
    with j'(2-6) show "\<exists>v ues e pv dv.
           map_of (dist_of ?st) v = Some dv \<and> map_of (paths_of ?st) v = Some pv \<and>
           succ G v = Inr ues \<and> (a, e) \<in> set ues \<and>
           map_of (paths_of ?st) a = Some (pv @ [a]) \<and>
           s = vu_dist dv (weight_function w e) (length pv)"
      by auto
  qed
  show ?thesis
    unfolding search_inv_def using fringe_ok_visit [OF f assms(2,3)] 1 2 by simp
qed

lemma search_inv_skip:
  assumes "search_inv G w source st" and "fringe_of st = (d, k, v) # rest"
    and "map_of (dist_of st) v \<noteq> None"
  shows "search_inv G w source (st\<lparr>fringe_of := rest\<rparr>)"
proof -
  from assms(1) have f: "fringe_ok st" and q: "paths_ok source st" and j: "justified G w source st"
    by (simp_all add: search_inv_def)
  from q assms(3) have "map_of (dist_of st) source \<noteq> None"
    unfolding paths_ok_def by auto
  with q have 1: "paths_ok source (st\<lparr>fringe_of := rest\<rparr>)" unfolding paths_ok_def by simp
  from j have 2: "justified G w source (st\<lparr>fringe_of := rest\<rparr>)" unfolding justified_def by simp
  show ?thesis
    unfolding search_inv_def using fringe_ok_skip [OF f assms(2,3)] 1 2 by simp
qed

lemma search_inv_Continue:
  assumes "search_inv G w source st" and "loop_body G w c t st = Continue st'"
  shows "search_inv G w source st'"
proof -
  from loop_body_Continue [OF assms(2)] obtain d k v rest where
    fr: "fringe_of st = (d, k, v) # rest"
    and cs: "(map_of (dist_of st) v \<noteq> None \<and> st' = st\<lparr>fringe_of := rest\<rparr>) \<or>
            (map_of (dist_of st) v = None \<and> t \<noteq> Some v \<and>
             (\<exists>ues. succ G v = Inr ues \<and>
                relax w c v ues (st\<lparr>fringe_of := rest, dist_of := AList.update v d (dist_of st)\<rparr>)
                  = Inr st'))"
    by blast
  from cs show ?thesis
  proof
    assume "map_of (dist_of st) v \<noteq> None \<and> st' = st\<lparr>fringe_of := rest\<rparr>"
    with search_inv_skip [OF assms(1) fr] show ?thesis by simp
  next
    assume a: "map_of (dist_of st) v = None \<and> t \<noteq> Some v \<and>
             (\<exists>ues. succ G v = Inr ues \<and>
                relax w c v ues (st\<lparr>fringe_of := rest, dist_of := AList.update v d (dist_of st)\<rparr>)
                  = Inr st')"
    then obtain ues where s: "succ G v = Inr ues"
      and r: "relax w c v ues (st\<lparr>fringe_of := rest, dist_of := AList.update v d (dist_of st)\<rparr>) = Inr st'"
      by blast
    from a have n: "map_of (dist_of st) v = None" by simp
    show ?thesis
      by (rule search_inv_relax [OF r search_inv_visit [OF assms(1) fr n] _ s])
         (simp add: update_conv')
  qed
qed


lemma search_inv_init: "search_inv G w source (init_search source)"
  unfolding search_inv_def
proof (intro conjI)
  show "fringe_ok (init_search source)" by (rule fringe_ok_init)
  show "paths_ok source (init_search source)"
    by (simp add: paths_ok_def init_search_def)
  show "justified G w source (init_search source)"
    by (simp add: justified_def init_search_def)
qed


subsection \<open>What the search returns\<close>

lemma relax_edge_paths_distinct:
  "relax_edge w c v ue st = Inr st' \<Longrightarrow> distinct (map fst (paths_of st)) \<Longrightarrow>
     distinct (map fst (paths_of st'))"
  by (cases ue) (auto dest!: relax_edge_Inr simp: pushed_def distinct_update)

lemma paths_distinct_loop:
  assumes "search_loop G w c t st = Inr st'" and "distinct (map fst (paths_of st))"
  shows "distinct (map fst (paths_of st'))"
proof (rule search_loop_rule [OF assms(1), where P = "\<lambda>s. distinct (map fst (paths_of s))"])
  show "distinct (map fst (paths_of st))" by fact
next
  fix s s' assume d: "distinct (map fst (paths_of s))" and b: "loop_body G w c t s = Continue s'"
  from loop_body_Continue [OF b] obtain d' k v rest where
    c: "s' = s\<lparr>fringe_of := rest\<rparr> \<or>
        (\<exists>ues. relax w c v ues (s\<lparr>fringe_of := rest, dist_of := AList.update v d' (dist_of s)\<rparr>) = Inr s')"
    by blast
  from c show "distinct (map fst (paths_of s'))"
  proof
    assume "s' = s\<lparr>fringe_of := rest\<rparr>"
    with d show ?thesis by simp
  next
    assume "\<exists>ues. relax w c v ues (s\<lparr>fringe_of := rest, dist_of := AList.update v d' (dist_of s)\<rparr>) = Inr s'"
    then obtain ues where
      r: "relax w c v ues (s\<lparr>fringe_of := rest, dist_of := AList.update v d' (dist_of s)\<rparr>) = Inr s'"
      by blast
    show ?thesis
      by (rule relax_rule [OF r, where P = "\<lambda>s. distinct (map fst (paths_of s))"])
         (use d in \<open>auto intro: relax_edge_paths_distinct\<close>)
  qed
next
  fix s s' assume d: "distinct (map fst (paths_of s))" and b: "loop_body G w c t s = Break s'"
  from loop_body_Break [OF b] d show "distinct (map fst (paths_of s'))" by auto
qed

lemma map_of_filter_value:
  assumes "distinct (map fst xs)"
  shows "map_of (filter (\<lambda>(k, v). P v) xs) k =
           (case map_of xs k of None \<Rightarrow> None | Some v \<Rightarrow> if P v then Some v else None)"
  using assms
proof (induction xs)
  case Nil
  then show ?case by simp
next
  case (Cons x xs)
  obtain a b where x: "x = (a, b)" by (cases x) auto
  from Cons.prems x have "map_of xs a = None" by (simp add: map_of_eq_None_iff)
  with Cons x show ?case by (auto split: option.splits)
qed

lemma map_of_map_value:
  "map_of (map (\<lambda>(k, v). (k, f v)) xs) k = map_option f (map_of xs k)"
  by (induction xs) auto

lemma search_result_weights:
  assumes "distinct (map fst (paths_of st))"
  shows "map_of (snd (search_result st)) u =
           (case map_of (paths_of st) u of
              None \<Rightarrow> None
            | Some p \<Rightarrow> if length p > 1
                        then map_option (\<lambda>d. 10 powr (- d)) (map_of (dist_of st) u) else None)"
  unfolding search_result_def Let_def snd_conv map_of_map_value map_of_filter_key
    map_of_filter_value [OF assms]
  by (auto split: option.splits)



subsection \<open>The cutoff\<close>

lemma within_cutoff_relax_edge:
  assumes "within_cutoff D st" and "relax_edge w (Some D) v ue st = Inr st'"
  shows "within_cutoff D st'"
proof -
  obtain u e where ue: "ue = (u, e)" by (cases ue) auto
  from relax_edge_Inr [OF assms(2) [unfolded ue]] show ?thesis
  proof
    assume "st' = st"
    with assms(1) show ?thesis by simp
  next
    assume "\<exists>pv dv. map_of (paths_of st) v = Some pv \<and> pv \<noteq> [] \<and>
            map_of (dist_of st) v = Some dv \<and>
            \<not> over_cutoff (Some D) (vu_dist dv (weight_function w e) (length pv)) \<and>
            map_of (dist_of st) u = None \<and>
            improves st u (vu_dist dv (weight_function w e) (length pv)) \<and>
            st' = pushed st u (vu_dist dv (weight_function w e) (length pv)) pv"
    then obtain pv dv where
      o: "\<not> over_cutoff (Some D) (vu_dist dv (weight_function w e) (length pv))"
      and s: "st' = pushed st u (vu_dist dv (weight_function w e) (length pv)) pv"
      by blast
    from o have "vu_dist dv (weight_function w e) (length pv) \<le> D"
      by (simp add: over_cutoff_def)
    with assms(1) s show ?thesis
      by (auto simp: within_cutoff_def pushed_def set_heappush)
  qed
qed

lemma within_cutoff_visit:
  assumes "within_cutoff D st" and "fringe_of st = (d, k, v) # rest"
  shows "within_cutoff D (st\<lparr>fringe_of := rest, dist_of := AList.update v d (dist_of st)\<rparr>)"
  using assms by (auto simp: within_cutoff_def update_conv')

lemma within_cutoff_relax:
  assumes "relax w (Some D) v ues st = Inr st'" and "within_cutoff D st"
  shows "within_cutoff D st'"
  by (rule relax_rule [OF assms(1), where P = "within_cutoff D"])
     (use assms(2) in \<open>auto intro: within_cutoff_relax_edge\<close>)

lemma within_cutoff_Continue:
  assumes "within_cutoff D s" and "loop_body G w (Some D) t s = Continue s'"
  shows "within_cutoff D s'"
proof -
  from loop_body_Continue [OF assms(2)] obtain d k v rest where
    fr: "fringe_of s = (d, k, v) # rest" and
    c: "s' = s\<lparr>fringe_of := rest\<rparr> \<or>
        (\<exists>ues. relax w (Some D) v ues (s\<lparr>fringe_of := rest, dist_of := AList.update v d (dist_of s)\<rparr>) = Inr s')"
    by blast
  from assms(1) fr have 1: "within_cutoff D (s\<lparr>fringe_of := rest\<rparr>)"
    by (auto simp: within_cutoff_def)
  from c show ?thesis
  proof
    assume "s' = s\<lparr>fringe_of := rest\<rparr>"
    with 1 show ?thesis by simp
  next
    assume "\<exists>ues. relax w (Some D) v ues (s\<lparr>fringe_of := rest, dist_of := AList.update v d (dist_of s)\<rparr>) = Inr s'"
    then obtain ues where
      r: "relax w (Some D) v ues (s\<lparr>fringe_of := rest, dist_of := AList.update v d (dist_of s)\<rparr>) = Inr s'"
      by blast
    from within_cutoff_relax [OF r within_cutoff_visit [OF assms(1) fr]] show ?thesis .
  qed
qed

lemma within_cutoff_loop:
  assumes "search_loop G w (Some D) t st = Inr st'" and "within_cutoff D st"
  shows "within_cutoff D st'"
proof (rule search_loop_rule [OF assms(1), where P = "within_cutoff D"])
  show "within_cutoff D st" by fact
next
  fix s s' assume "within_cutoff D s" and "loop_body G w (Some D) t s = Continue s'"
  then show "within_cutoff D s'" by (rule within_cutoff_Continue)
next
  fix s s' assume i: "within_cutoff D s" and b: "loop_body G w (Some D) t s = Break s'"
  from loop_body_Break [OF b] i show "within_cutoff D s'"
    by (auto simp: within_cutoff_def update_conv' split: if_splits)
qed

lemma cutoff_distance_unit:
  assumes "0 < c" and "c \<le> 1"
  shows "cutoff_distance c = Some (- log 10 c)" and "0 \<le> - log 10 c"
  using assms by (simp_all add: cutoff_distance_def)

subsection \<open>The search on a chain of three nodes\<close>

lemma log10_tenth: "log 10 (1 / 10) = - 1"
  by (simp add: log_divide)

lemma log10_hundredth: "log 10 (1 / 100) = - 2"
proof -
  have "log 10 (10 powr 2) = 2" by (rule log_powr_cancel) simp_all
  then have "log 10 100 = 2" by simp
  then show ?thesis by (simp add: log_divide)
qed

lemma log10_half: "log 10 (1 / 2) = - log 10 2"
  by (simp add: log_divide)

lemma powr_two_hundredth: "10 powr (- 2 - log 10 2) = 1 / 200"
proof -
  have "10 powr (- 2 - log 10 2) = 10 powr (- 2) / 10 powr (log 10 2)"
    by (rule powr_diff)
  also have "10 powr (- 2 :: real) = 1 / 100"
    by (simp add: powr_minus_divide)
  finally show ?thesis by simp
qed

lemma example_chain_unlimited:
  "dijkstra_prob_length example_chain ''S'' ''weight'' 0 None =
     Inr ([(''A'', [''S'', ''A'']), (''B'', [''S'', ''A'', ''B''])],
          [(''A'', 1 / 10), (''B'', 1 / 200)])"
  by (simp add: search_defs example_chain_def log10_tenth log10_half powr_two_hundredth)

lemma example_chain_one:
  "dijkstra_prob_length example_chain ''S'' ''weight'' 1 None = Inr ([], [])"
  by (simp add: search_defs example_chain_def log10_tenth)

lemma example_chain_hundredth:
  "dijkstra_prob_length example_chain ''S'' ''weight'' (1 / 100) None =
     Inr ([(''A'', [''S'', ''A''])], [(''A'', 1 / 10)])"
  by (simp add: search_defs example_chain_def log10_tenth log10_half log10_hundredth)


subsection \<open>Contradictory paths\<close>

lemma relax_error_rule:
  assumes "relax w c v ues st = Inl err" and "P st"
    and "\<And>ue s s'. ue \<in> set ues \<Longrightarrow> P s \<Longrightarrow> relax_edge w c v ue s = Inr s' \<Longrightarrow> P s'"
  shows "\<exists>ue s. ue \<in> set ues \<and> P s \<and> relax_edge w c v ue s = Inl err"
  using assms
proof (induction ues arbitrary: st)
  case Nil
  then show ?case by simp
next
  case (Cons ue ues)
  show ?case
  proof (cases "relax_edge w c v ue st")
    case (Inl a)
    with Cons.prems(1) have "a = err" by simp
    with Inl Cons.prems(2) have "ue \<in> set (ue # ues) \<and> P st \<and> relax_edge w c v ue st = Inl err"
      by simp
    then show ?thesis by blast
  next
    case (Inr s1)
    with Cons.prems(1) have r: "relax w c v ues s1 = Inl err" by simp
    have "P s1" using Cons.prems(3) [OF _ Cons.prems(2) Inr] by simp
    from Cons.IH [OF r this] Cons.prems(3)
    obtain ue' s where "ue' \<in> set ues" "P s" "relax_edge w c v ue' s = Inl err"
      by (metis list.set_intros(2))
    then have "ue' \<in> set (ue # ues) \<and> P s \<and> relax_edge w c v ue' s = Inl err" by simp
    then show ?thesis by blast
  qed
qed

lemma search_loop_error_rule:
  assumes "search_loop G w c t st = Inl err" and "P st"
    and "\<And>s s'. P s \<Longrightarrow> loop_body G w c t s = Continue s' \<Longrightarrow> P s'"
  shows "\<exists>s. P s \<and> loop_body G w c t s = Raise err"
  using assms
proof (induction G w c t st rule: search_loop.induct)
  case (1 G w c t st)
  show ?case
  proof (cases "loop_body G w c t st")
    case (Continue s1)
    with "1.prems"(1) have r: "search_loop G w c t s1 = Inl err"
      by (simp add: search_loop.simps [of G w c t st])
    have "P s1" using "1.prems"(3) [OF "1.prems"(2) Continue] .
    from "1.IH" [OF Continue r this "1.prems"(3)] show ?thesis by simp
  next
    case (Break s1)
    with "1.prems"(1) show ?thesis
      by (simp add: search_loop.simps [of G w c t st])
  next
    case (Raise e)
    with "1.prems"(1) have "e = err"
      by (simp add: search_loop.simps [of G w c t st])
    with Raise "1.prems"(2) show ?thesis by auto
  qed
qed

lemma loop_body_Raise:
  assumes "loop_body G w c t st = Raise err"
  shows "\<exists>d k v rest. fringe_of st = (d, k, v) # rest \<and> map_of (dist_of st) v = None \<and>
           t \<noteq> Some v \<and>
           (succ G v = Inl err \<or>
            (\<exists>ues. succ G v = Inr ues \<and>
               relax w c v ues (st\<lparr>fringe_of := rest, dist_of := AList.update v d (dist_of st)\<rparr>)
                 = Inl err))"
proof (cases "fringe_of st")
  case Nil
  with assms show ?thesis by (simp add: loop_body_def heappop_def)
next
  case (Cons x rest)
  obtain d k v where x: "x = (d, k, v)" by (cases x) auto
  with assms Cons show ?thesis
    by (auto simp: loop_body_def heappop_def Let_def split: if_splits sum.splits)
qed

lemma settled_visit:
  assumes "fringe_ok st" and "settled st" and "fringe_of st = (d, k, v) # rest"
  shows "finalised_below (st\<lparr>fringe_of := rest, dist_of := AList.update v d (dist_of st)\<rparr>) d"
    and "fringe_above (st\<lparr>fringe_of := rest, dist_of := AList.update v d (dist_of st)\<rparr>) d"
proof -
  from assms(2,3) have "du \<le> d" if "map_of (dist_of st) u = Some du" for u du
    using that unfolding settled_def by fastforce
  then show "finalised_below (st\<lparr>fringe_of := rest, dist_of := AList.update v d (dist_of st)\<rparr>) d"
    by (auto simp: finalised_below_def update_conv' split: if_splits)
  from assms(1,3) have "\<forall>y \<in> set rest. \<not> entry_less y (d, k, v)"
    by (simp add: fringe_ok_def fringe_sorted_def)
  then show "fringe_above (st\<lparr>fringe_of := rest, dist_of := AList.update v d (dist_of st)\<rparr>) d"
    by (auto simp: fringe_above_def entry_less_def)
qed

lemma settled_from_inner:
  assumes "finalised_below st d" and "fringe_above st d"
  shows "settled st"
  using assms unfolding settled_def finalised_below_def fringe_above_def
  by (meson order_trans)

lemma inner_relax_edge:
  assumes "finalised_below st d" and "fringe_above st d" and "map_of (dist_of st) v = Some d"
    and "0 \<le> weight_function w e"
    and "relax_edge w c v (u, e) st = Inr st'"
  shows "finalised_below st' d \<and> fringe_above st' d"
proof -
  from relax_edge_Inr [OF assms(5)] show ?thesis
  proof
    assume "st' = st"
    with assms(1,2) show ?thesis by simp
  next
    assume "\<exists>pv dv. map_of (paths_of st) v = Some pv \<and> pv \<noteq> [] \<and>
            map_of (dist_of st) v = Some dv \<and>
            \<not> over_cutoff c (vu_dist dv (weight_function w e) (length pv)) \<and>
            map_of (dist_of st) u = None \<and>
            improves st u (vu_dist dv (weight_function w e) (length pv)) \<and>
            st' = pushed st u (vu_dist dv (weight_function w e) (length pv)) pv"
    then obtain pv dv where p: "pv \<noteq> []" "map_of (dist_of st) v = Some dv"
      "st' = pushed st u (vu_dist dv (weight_function w e) (length pv)) pv"
      by blast
    from p(2) assms(3) have "dv = d" by simp
    with vu_dist_ge [OF assms(4), of "length pv" d] p(1)
    have "d \<le> vu_dist dv (weight_function w e) (length pv)" by simp
    with assms(1,2) show ?thesis
      unfolding p(3) by (auto simp: finalised_below_def fringe_above_def pushed_def set_heappush)
  qed
qed

lemma inner_no_contradiction:
  assumes "finalised_below st d" and "map_of (dist_of st) v = Some d"
    and "0 \<le> weight_function w e"
  shows "relax_edge w c v (u, e) st \<noteq> Inl ValueError_contradictory"
proof (cases "map_of (paths_of st) v")
  case None
  then show ?thesis by (simp add: relax_edge_def)
next
  case (Some pv)
  show ?thesis
  proof (cases "pv = []")
    case True
    with Some assms(2) show ?thesis by (simp add: relax_edge_def)
  next
    case False
    from vu_dist_ge [OF assms(3), of "length pv" d] False
    have ge: "d \<le> vu_dist d (weight_function w e) (length pv)" by simp
    have "\<not> vu_dist d (weight_function w e) (length pv) < du" if "map_of (dist_of st) u = Some du" for du
      using that assms(1) ge unfolding finalised_below_def by fastforce
    then show ?thesis
      unfolding relax_edge_cases [OF Some assms(2) False] Let_def
      by (auto split: option.splits)
  qed
qed

lemma settled_Continue:
  assumes "unit_weights G w" and "search_inv G w source st" and "settled st"
    and "loop_body G w c t st = Continue st'"
  shows "settled st'"
proof -
  from loop_body_Continue [OF assms(4)] obtain d k v rest where
    fr: "fringe_of st = (d, k, v) # rest"
    and cs: "(map_of (dist_of st) v \<noteq> None \<and> st' = st\<lparr>fringe_of := rest\<rparr>) \<or>
            (map_of (dist_of st) v = None \<and> t \<noteq> Some v \<and>
             (\<exists>ues. succ G v = Inr ues \<and>
                relax w c v ues (st\<lparr>fringe_of := rest, dist_of := AList.update v d (dist_of st)\<rparr>)
                  = Inr st'))"
    by blast
  from assms(2) have f: "fringe_ok st" by (simp add: search_inv_def)
  from cs show ?thesis
  proof
    assume "map_of (dist_of st) v \<noteq> None \<and> st' = st\<lparr>fringe_of := rest\<rparr>"
    then have "dist_of st' = dist_of st" "set (fringe_of st') \<subseteq> set (fringe_of st)"
      using fr by auto
    with assms(3) show ?thesis unfolding settled_def by (metis subsetD)
  next
    let ?st1 = "st\<lparr>fringe_of := rest, dist_of := AList.update v d (dist_of st)\<rparr>"
    assume "map_of (dist_of st) v = None \<and> t \<noteq> Some v \<and>
             (\<exists>ues. succ G v = Inr ues \<and> relax w c v ues ?st1 = Inr st')"
    then obtain ues where s: "succ G v = Inr ues" and r: "relax w c v ues ?st1 = Inr st'"
      by blast
    from s have g: "map_of G v = Some ues" by (auto simp: succ_def split: option.splits)
    have "finalised_below st' d \<and> fringe_above st' d \<and> map_of (dist_of st') v = Some d"
    proof (rule relax_rule [OF r, where P = "\<lambda>s. finalised_below s d \<and> fringe_above s d
                                                \<and> map_of (dist_of s) v = Some d"])
      show "finalised_below ?st1 d \<and> fringe_above ?st1 d \<and> map_of (dist_of ?st1) v = Some d"
        using settled_visit [OF f assms(3) fr] by (simp add: update_conv')
    next
      fix ue s s'
      assume ue: "ue \<in> set ues"
        and i: "finalised_below s d \<and> fringe_above s d \<and> map_of (dist_of s) v = Some d"
        and re: "relax_edge w c v ue s = Inr s'"
      obtain u e where [simp]: "ue = (u, e)" by (cases ue) auto
      from weight_function_nonneg [OF assms(1) g] ue have "0 \<le> weight_function w e" by simp
      from inner_relax_edge [OF _ _ _ this, of s d v c u s'] i re relax_edge_dist [OF re]
      show "finalised_below s' d \<and> fringe_above s' d \<and> map_of (dist_of s') v = Some d"
        by simp
    qed
    then show ?thesis using settled_from_inner by blast
  qed
qed

lemma settled_init: "settled (init_search source)"
  by (simp add: settled_def init_search_def)

lemma search_no_contradiction:
  assumes "unit_weights G w"
  shows "search_loop G w c t (init_search source) \<noteq> Inl ValueError_contradictory"
proof
  assume a: "search_loop G w c t (init_search source) = Inl ValueError_contradictory"
  have "\<exists>s. (search_inv G w source s \<and> settled s)
            \<and> loop_body G w c t s = Raise ValueError_contradictory"
    by (rule search_loop_error_rule [OF a])
       (auto intro: search_inv_init settled_init search_inv_Continue settled_Continue [OF assms])
  then obtain st where i: "search_inv G w source st" "settled st"
    and b: "loop_body G w c t st = Raise ValueError_contradictory"
    by blast
  from i(1) have f: "fringe_ok st" by (simp add: search_inv_def)
  from loop_body_Raise [OF b] obtain d k v rest where
    fr: "fringe_of st = (d, k, v) # rest"
    and cs: "succ G v = Inl ValueError_contradictory \<or>
            (\<exists>ues. succ G v = Inr ues \<and>
               relax w c v ues (st\<lparr>fringe_of := rest, dist_of := AList.update v d (dist_of st)\<rparr>)
                 = Inl ValueError_contradictory)"
    by blast
  let ?st1 = "st\<lparr>fringe_of := rest, dist_of := AList.update v d (dist_of st)\<rparr>"
  from cs show False
  proof
    assume "succ G v = Inl ValueError_contradictory"
    then show False by (simp add: succ_def split: option.splits)
  next
    assume "\<exists>ues. succ G v = Inr ues \<and> relax w c v ues ?st1 = Inl ValueError_contradictory"
    then obtain ues where s: "succ G v = Inr ues"
      and r: "relax w c v ues ?st1 = Inl ValueError_contradictory"
      by blast
    from s have g: "map_of G v = Some ues" by (auto simp: succ_def split: option.splits)
    have "\<exists>ue s. ue \<in> set ues \<and>
            (finalised_below s d \<and> fringe_above s d \<and> map_of (dist_of s) v = Some d)
            \<and> relax_edge w c v ue s = Inl ValueError_contradictory"
    proof (rule relax_error_rule [OF r])
      show "finalised_below ?st1 d \<and> fringe_above ?st1 d \<and> map_of (dist_of ?st1) v = Some d"
        using settled_visit [OF f i(2) fr] by (simp add: update_conv')
    next
      fix ue s s'
      assume ue: "ue \<in> set ues"
        and j: "finalised_below s d \<and> fringe_above s d \<and> map_of (dist_of s) v = Some d"
        and re: "relax_edge w c v ue s = Inr s'"
      obtain u e where [simp]: "ue = (u, e)" by (cases ue) auto
      from weight_function_nonneg [OF assms g] ue have "0 \<le> weight_function w e" by simp
      from inner_relax_edge [OF _ _ _ this, of s d v c u s'] j re relax_edge_dist [OF re]
      show "finalised_below s' d \<and> fringe_above s' d \<and> map_of (dist_of s') v = Some d"
        by simp
    qed
    then obtain ue s where ue: "ue \<in> set ues"
      and j: "finalised_below s d" "map_of (dist_of s) v = Some d"
      and re: "relax_edge w c v ue s = Inl ValueError_contradictory"
      by blast
    obtain u e where [simp]: "ue = (u, e)" by (cases ue) auto
    from weight_function_nonneg [OF assms g] ue have "0 \<le> weight_function w e" by simp
    from inner_no_contradiction [OF j this, of c u] re show False by simp
  qed
qed

lemma relax_edge_contradiction:
  assumes "map_of (dist_of st) u = Some du" and "map_of (paths_of st) v = Some pv" and "pv \<noteq> []"
    and "map_of (dist_of st) v = Some dv" and "\<forall>D. c = Some D \<longrightarrow> du \<le> D"
    and "vu_dist dv (weight_function w e) (length pv) < du"
  shows "relax_edge w c v (u, e) st = Inl ValueError_contradictory"
proof -
  from assms(5,6) have "\<not> over_cutoff c (vu_dist dv (weight_function w e) (length pv))"
    by (cases c) (auto simp: over_cutoff_def)
  with assms(1,6) show ?thesis
    unfolding relax_edge_cases [OF assms(2,4,3)] Let_def by simp
qed

lemma relax_append_error:
  assumes "relax w c v pre st = Inr s" and "relax_edge w c v ue s = Inl err"
  shows "relax w c v (pre @ ue # post) st = Inl err"
  using assms by (induction pre arbitrary: st) (auto split: sum.splits)

lemma relax_path_nonempty:
  assumes "relax w c v ues st = Inr s" and "\<exists>p. map_of (paths_of st) v = Some p \<and> p \<noteq> []"
  shows "\<exists>p. map_of (paths_of s) v = Some p \<and> p \<noteq> []"
proof (rule relax_rule [OF assms(1), where P = "\<lambda>s. \<exists>p. map_of (paths_of s) v = Some p \<and> p \<noteq> []"])
  show "\<exists>p. map_of (paths_of st) v = Some p \<and> p \<noteq> []" by fact
next
  fix ue a b
  assume p: "\<exists>p. map_of (paths_of a) v = Some p \<and> p \<noteq> []" and r: "relax_edge w c v ue a = Inr b"
  obtain u e where ue: "ue = (u, e)" by (cases ue) auto
  from relax_edge_Inr [OF r [unfolded ue]] p
  show "\<exists>p. map_of (paths_of b) v = Some p \<and> p \<noteq> []"
    by (auto simp: pushed_def update_conv')
qed

lemma search_raises_contradiction:
  assumes "0 \<le> cutoff" and "cutoff \<le> 1"
    and "turns n G w (cutoff_distance cutoff) target (init_search source) = Continue st"
    and "fringe_of st = (d, k, v) # rest" and "map_of (dist_of st) v = None"
    and "target \<noteq> Some v" and "succ G v = Inr (pre @ (u, e) # post)"
    and "relax w (cutoff_distance cutoff) v pre
           (st\<lparr>fringe_of := rest, dist_of := AList.update v d (dist_of st)\<rparr>) = Inr s"
    and "map_of (paths_of s) v = Some pv" and "map_of (dist_of s) u = Some du"
    and "vu_dist d (weight_function w e) (length pv) < du"
  shows "dijkstra_prob_length G source w cutoff target = Inl ValueError_contradictory"
proof -
  let ?c = "cutoff_distance cutoff"
  let ?st1 = "st\<lparr>fringe_of := rest, dist_of := AList.update v d (dist_of st)\<rparr>"
  let ?x = "vu_dist d (weight_function w e) (length pv)"
  have inv: "search_inv G w source st"
    by (rule turns_rule [OF assms(3), where P = "search_inv G w source"])
       (auto intro: search_inv_init search_inv_Continue)
  then have f: "fringe_ok st" and p: "paths_ok source st" by (simp_all add: search_inv_def)
  from f assms(4) have "map_of (seen_of st) v \<noteq> None" unfolding fringe_ok_def by fastforce
  with p have "\<exists>p. map_of (paths_of st) v = Some p \<and> p \<noteq> []" unfolding paths_ok_def by blast
  then have "\<exists>p. map_of (paths_of ?st1) v = Some p \<and> p \<noteq> []" by simp
  from relax_path_nonempty [OF assms(8) this] assms(9) have ne: "pv \<noteq> []" by simp
  have dv: "map_of (dist_of s) v = Some d"
    using relax_dist [OF assms(8)] by (simp add: update_conv')
  have lim: "\<forall>D. ?c = Some D \<longrightarrow> du \<le> D"
  proof (intro allI impI)
    fix D assume c: "?c = Some D"
    with assms(1,2) have "0 \<le> D" by (auto simp: cutoff_distance_def split: if_splits)
    then have "within_cutoff D (init_search source)"
      by (simp add: within_cutoff_def init_search_def)
    have "within_cutoff D st"
      by (rule turns_rule [OF assms(3), where P = "within_cutoff D"])
         (use \<open>within_cutoff D (init_search source)\<close> c in \<open>auto intro: within_cutoff_Continue\<close>)
    from within_cutoff_relax [OF assms(8) [unfolded c] within_cutoff_visit [OF this assms(4)]]
    show "du \<le> D" using assms(10) unfolding within_cutoff_def by blast
  qed
  have "relax_edge w ?c v (u, e) s = Inl ValueError_contradictory"
    by (rule relax_edge_contradiction [OF assms(10,9) ne dv lim assms(11)])
  from relax_append_error [OF assms(8) this]
  have "relax w ?c v (pre @ (u, e) # post) ?st1 = Inl ValueError_contradictory" .
  then have "loop_body G w ?c target st = Raise ValueError_contradictory"
    by (simp add: loop_body_visit [OF assms(4,5,6,7)])
  then have "search_loop G w ?c target st = Inl ValueError_contradictory"
    by (simp add: search_loop.simps [of G w _ target st])
  with turns_search_loop [OF assms(3)]
  have "search_loop G w ?c target (init_search source) = Inl ValueError_contradictory" by simp
  with assms(1,2) show ?thesis by (simp add: dijkstra_prob_length_def)
qed

text \<open>
  Claim C9. When the relaxation of an edge gives a node that is finalised a distance
  smaller than the one it was finalised with, the relaxation raises the error of
  contradictory paths. When this happens in a turn of the search, the search as a whole
  raises it: whichever turn it is, and whichever successor of the node that is visited,
  the error ends the loop over the successors and the loop over the fringe, and the
  function returns nothing. When every edge weight of the graph lies in \<open>(0, 1]\<close>, so
  that no cost is negative, the search never raises this error, whatever the source,
  the cutoff and the target are.
\<close>

theorem contradictory_paths:
  "(\<forall>(st :: 'n search) u v e pv dv du.
      map_of (dist_of st) u = Some du \<and> map_of (paths_of st) v = Some pv \<and> pv \<noteq> [] \<and>
      map_of (dist_of st) v = Some dv \<and> (\<forall>D. cutoff_distance cutoff = Some D \<longrightarrow> du \<le> D) \<and>
      vu_dist dv (weight_function w e) (length pv) < du
      \<longrightarrow> relax_edge w (cutoff_distance cutoff) v (u, e) st = Inl ValueError_contradictory)
   \<and> (\<forall>n st d k v rest pre u e post s pv du.
      0 \<le> cutoff \<and> cutoff \<le> 1 \<and>
      turns n G w (cutoff_distance cutoff) target (init_search source) = Continue st \<and>
      fringe_of st = (d, k, v) # rest \<and> map_of (dist_of st) v = None \<and> target \<noteq> Some v \<and>
      succ G v = Inr (pre @ (u, e) # post) \<and>
      relax w (cutoff_distance cutoff) v pre
        (st\<lparr>fringe_of := rest, dist_of := AList.update v d (dist_of st)\<rparr>) = Inr s \<and>
      map_of (paths_of s) v = Some pv \<and> map_of (dist_of s) u = Some du \<and>
      vu_dist d (weight_function w e) (length pv) < du
      \<longrightarrow> dijkstra_prob_length G source w cutoff target = Inl ValueError_contradictory)
   \<and> (unit_weights (G :: 'n graph) w \<longrightarrow>
        dijkstra_prob_length G source w cutoff target \<noteq> Inl ValueError_contradictory)"
proof (intro conjI allI impI)
  fix st :: "'n search" and u v e pv dv du
  assume "map_of (dist_of st) u = Some du \<and> map_of (paths_of st) v = Some pv \<and> pv \<noteq> [] \<and>
      map_of (dist_of st) v = Some dv \<and> (\<forall>D. cutoff_distance cutoff = Some D \<longrightarrow> du \<le> D) \<and>
      vu_dist dv (weight_function w e) (length pv) < du"
  then show "relax_edge w (cutoff_distance cutoff) v (u, e) st = Inl ValueError_contradictory"
    using relax_edge_contradiction [of st u du v pv dv "cutoff_distance cutoff" w e] by blast
next
  fix n and st :: "'n search" and d k v rest pre u e post s pv du
  assume a: "0 \<le> cutoff \<and> cutoff \<le> 1 \<and>
      turns n G w (cutoff_distance cutoff) target (init_search source) = Continue st \<and>
      fringe_of st = (d, k, v) # rest \<and> map_of (dist_of st) v = None \<and> target \<noteq> Some v \<and>
      succ G v = Inr (pre @ (u, e) # post) \<and>
      relax w (cutoff_distance cutoff) v pre
        (st\<lparr>fringe_of := rest, dist_of := AList.update v d (dist_of st)\<rparr>) = Inr s \<and>
      map_of (paths_of s) v = Some pv \<and> map_of (dist_of s) u = Some du \<and>
      vu_dist d (weight_function w e) (length pv) < du"
  show "dijkstra_prob_length G source w cutoff target = Inl ValueError_contradictory"
    by (rule search_raises_contradiction [of cutoff n G w target source st d k v rest pre u e post s pv du])
       (use a in simp_all)
next
  assume "unit_weights G w"
  from search_no_contradiction [OF this, of "cutoff_distance cutoff" target source]
  show "dijkstra_prob_length G source w cutoff target \<noteq> Inl ValueError_contradictory"
    by (auto simp: dijkstra_prob_length_def split: sum.splits)
qed

lemma log10_hundred: "log 10 100 = 2"
proof -
  have "log 10 (10 powr 2) = 2" by (rule log_powr_cancel) simp_all
  then show ?thesis by simp
qed

lemma example_chain_unit_weights: "unit_weights example_chain ''weight''"
  unfolding unit_weights_def example_chain_def
  by (auto split: if_splits)

lemma example_bad_turns:
  "turns (Suc (Suc 0)) example_bad ''weight'' (cutoff_distance 0) None (init_search ''S'')
     = Continue example_bad_before"
  by (simp add: example_bad_before_def example_bad_def search_defs log10_tenth log10_hundredth)

theorem contradictory_paths_witness:
  "unit_weights example_chain ''weight''
   \<and> dijkstra_prob_length example_chain ''S'' ''weight'' 0 None \<noteq> Inl ValueError_contradictory
   \<and> turns (Suc (Suc 0)) example_bad ''weight'' (cutoff_distance 0) None (init_search ''S'')
       = Continue example_bad_before
   \<and> fringe_of example_bad_before = [(2, 2, ''B'')]
   \<and> map_of (dist_of example_bad_before) ''B'' = None
   \<and> succ example_bad ''B'' = Inr [(''C'', [(''weight'', 1 / 10)]), (''A'', [(''weight'', 100)])]
   \<and> relax ''weight'' (cutoff_distance 0) ''B'' [(''C'', [(''weight'', 1 / 10)])]
        (example_bad_before\<lparr>fringe_of := [],
           dist_of := AList.update ''B'' 2 (dist_of example_bad_before)\<rparr>) = Inr example_bad_state
   \<and> map_of (paths_of example_bad_state) ''B'' = Some [''S'', ''B'']
   \<and> map_of (dist_of example_bad_state) ''B'' = Some 2
   \<and> map_of (dist_of example_bad_state) ''A'' = Some 1
   \<and> vu_dist 2 (weight_function ''weight'' [(''weight'', 100)]) (length [''S'', ''B'']) < 1
   \<and> relax_edge ''weight'' (cutoff_distance 0) ''B'' (''A'', [(''weight'', 100)]) example_bad_state
       = Inl ValueError_contradictory
   \<and> dijkstra_prob_length example_bad ''S'' ''weight'' 0 None = Inl ValueError_contradictory"
proof -
  note cp = contradictory_paths [where cutoff = 0 and G = example_chain and w = "''weight''"
      and target = None and source = "''S''"]
  note cb = contradictory_paths [where cutoff = 0 and G = example_bad and w = "''weight''"
      and target = None and source = "''S''"]
  have 1: "dijkstra_prob_length example_chain ''S'' ''weight'' 0 None \<noteq> Inl ValueError_contradictory"
    by (rule cp [THEN conjunct2, THEN conjunct2, THEN mp, OF example_chain_unit_weights])
  have 2: "fringe_of example_bad_before = [(2, 2, ''B'')]"
    by (simp add: example_bad_before_def)
  have 3: "map_of (dist_of example_bad_before) ''B'' = None"
    by (simp add: example_bad_before_def)
  have 4: "succ example_bad ''B'' = Inr [(''C'', [(''weight'', 1 / 10)]), (''A'', [(''weight'', 100)])]"
    by (simp add: succ_def example_bad_def)
  have 5: "relax ''weight'' (cutoff_distance 0) ''B'' [(''C'', [(''weight'', 1 / 10)])]
        (example_bad_before\<lparr>fringe_of := [],
           dist_of := AList.update ''B'' 2 (dist_of example_bad_before)\<rparr>) = Inr example_bad_state"
    by (simp add: example_bad_before_def example_bad_state_def cutoff_distance_def relax_edge_def
        vu_dist_def weight_function_def Let_def log10_tenth log10_half)
  have 6: "map_of (paths_of example_bad_state) ''B'' = Some [''S'', ''B'']"
    by (simp add: example_bad_state_def)
  have 7: "map_of (dist_of example_bad_state) ''A'' = Some 1"
    by (simp add: example_bad_state_def)
  have 8: "vu_dist 2 (weight_function ''weight'' [(''weight'', 100)]) (length [''S'', ''B'']) < 1"
    by (simp add: vu_dist_def weight_function_def log10_hundred log10_half)
  have t: "(None :: string option) \<noteq> Some ''B''" by simp
  have s: "succ example_bad ''B'' =
      Inr ([(''C'', [(''weight'', 1 / 10)])] @ (''A'', [(''weight'', 100)]) # [])"
    using 4 by simp
  have b: "(0 :: real) \<le> 0" "(0 :: real) \<le> 1" by simp_all
  have h: "(0 :: real) \<le> 0 \<and> (0 :: real) \<le> 1 \<and>
      turns (Suc (Suc 0)) example_bad ''weight'' (cutoff_distance 0) None (init_search ''S'')
        = Continue example_bad_before \<and>
      fringe_of example_bad_before = (2, 2, ''B'') # [] \<and>
      map_of (dist_of example_bad_before) ''B'' = None \<and> None \<noteq> Some ''B'' \<and>
      succ example_bad ''B'' =
        Inr ([(''C'', [(''weight'', 1 / 10)])] @ (''A'', [(''weight'', 100)]) # []) \<and>
      relax ''weight'' (cutoff_distance 0) ''B'' [(''C'', [(''weight'', 1 / 10)])]
        (example_bad_before\<lparr>fringe_of := [],
           dist_of := AList.update ''B'' 2 (dist_of example_bad_before)\<rparr>) = Inr example_bad_state \<and>
      map_of (paths_of example_bad_state) ''B'' = Some [''S'', ''B''] \<and>
      map_of (dist_of example_bad_state) ''A'' = Some 1 \<and>
      vu_dist 2 (weight_function ''weight'' [(''weight'', 100)]) (length [''S'', ''B'']) < 1"
    by (intro conjI b example_bad_turns 2 3 t s 5 6 7 8)
  have 9: "dijkstra_prob_length example_bad ''S'' ''weight'' 0 None = Inl ValueError_contradictory"
    by (rule cb [THEN conjunct2, THEN conjunct1, rule_format, OF h])
  have 10: "map_of (dist_of example_bad_state) ''B'' = Some 2"
    by (simp add: example_bad_state_def)
  have g: "map_of (dist_of example_bad_state) ''A'' = Some 1 \<and>
      map_of (paths_of example_bad_state) ''B'' = Some [''S'', ''B''] \<and> [''S'', ''B''] \<noteq> [] \<and>
      map_of (dist_of example_bad_state) ''B'' = Some 2 \<and>
      (\<forall>D. cutoff_distance 0 = Some D \<longrightarrow> 1 \<le> D) \<and>
      vu_dist 2 (weight_function ''weight'' [(''weight'', 100)]) (length [''S'', ''B'']) < 1"
    using 6 7 8 10 by (simp add: cutoff_distance_def)
  have 11: "relax_edge ''weight'' (cutoff_distance 0) ''B'' (''A'', [(''weight'', 100)]) example_bad_state
       = Inl ValueError_contradictory"
    by (rule cb [THEN conjunct1, rule_format, OF g])
  from example_chain_unit_weights 1 example_bad_turns 2 3 4 5 6 10 7 8 11 9 show ?thesis
    by (intro conjI)
qed

subsection \<open>The search returns when the graph is closed and its weights are probabilities\<close>

lemma safe_inner_relax_edge:
  assumes "unit_weights G w" and "closed_graph G"
    and "safe_inner G w source v d st" and "succ G v = Inr ues" and "(u, e) \<in> set ues"
    and "relax_edge w c v (u, e) st = Inr st'"
  shows "safe_inner G w source v d st'"
proof -
  from assms(4) have g: "map_of G v = Some ues" by (auto simp: succ_def split: option.splits)
  from assms(3) have i: "search_inv G w source st" and fb: "finalised_below st d"
    and fa: "fringe_above st d" and dv: "map_of (dist_of st) v = Some d"
    and fn: "fringe_nodes G st"
    by (simp_all add: safe_inner_def)
  from dv have dn: "map_of (dist_of st) v \<noteq> None" by simp
  have 1: "search_inv G w source st'"
    by (rule search_inv_relax_edge [OF i dn assms(4,5,6)])
  from weight_function_nonneg [OF assms(1) g assms(5)]
  have 2: "finalised_below st' d \<and> fringe_above st' d"
    by (rule inner_relax_edge [OF fb fa dv _ assms(6)])
  have 3: "map_of (dist_of st') v = Some d"
    using relax_edge_dist [OF assms(6)] dv by simp
  from assms(2) g assms(5) have "map_of G u \<noteq> None" unfolding closed_graph_def by blast
  moreover from relax_edge_Inr [OF assms(6)]
  have "st' = st \<or> (\<exists>x pv. st' = pushed st u x pv)" by blast
  ultimately have 4: "fringe_nodes G st'"
    using fn by (auto simp: fringe_nodes_def pushed_def set_heappush)
  from 1 2 3 4 show ?thesis by (simp add: safe_inner_def)
qed

lemma safe_inner_relax:
  assumes "unit_weights G w" and "closed_graph G"
    and "relax w c v ues st = Inr st'" and "safe_inner G w source v d st"
    and "succ G v = Inr ues"
  shows "safe_inner G w source v d st'"
proof (rule relax_rule [OF assms(3), where P = "safe_inner G w source v d"])
  show "safe_inner G w source v d st" by fact
next
  fix ue s s'
  assume "ue \<in> set ues" "safe_inner G w source v d s" "relax_edge w c v ue s = Inr s'"
  then show "safe_inner G w source v d s'"
    using safe_inner_relax_edge [OF assms(1,2) _ assms(5), of source d s "fst ue" "snd ue" c s']
    by simp
qed

lemma safe_visit:
  assumes "safe G w source st" and "fringe_of st = (d, k, v) # rest"
    and "map_of (dist_of st) v = None"
  shows "safe_inner G w source v d (st\<lparr>fringe_of := rest, dist_of := AList.update v d (dist_of st)\<rparr>)"
proof -
  from assms(1) have i: "search_inv G w source st" and s: "settled st" and fn: "fringe_nodes G st"
    by (simp_all add: safe_def)
  from i have f: "fringe_ok st" by (simp add: search_inv_def)
  from fn assms(2) have "fringe_nodes G (st\<lparr>fringe_of := rest, dist_of := AList.update v d (dist_of st)\<rparr>)"
    by (simp add: fringe_nodes_def)
  with search_inv_visit [OF i assms(2,3)] settled_visit [OF f s assms(2)]
  show ?thesis by (simp add: safe_inner_def update_conv')
qed

lemma safe_inner_safe:
  assumes "safe_inner G w source v d st"
  shows "safe G w source st"
  using assms settled_from_inner [of st d] by (simp add: safe_inner_def safe_def)

lemma safe_skip:
  assumes "safe G w source st" and "fringe_of st = (d, k, v) # rest"
    and "map_of (dist_of st) v \<noteq> None"
  shows "safe G w source (st\<lparr>fringe_of := rest\<rparr>)"
proof -
  from assms(1) have i: "search_inv G w source st" and s: "settled st" and fn: "fringe_nodes G st"
    by (simp_all add: safe_def)
  have "settled (st\<lparr>fringe_of := rest\<rparr>)"
    unfolding settled_def
  proof (intro allI impI)
    fix u du x
    assume "map_of (dist_of (st\<lparr>fringe_of := rest\<rparr>)) u = Some du
              \<and> x \<in> set (fringe_of (st\<lparr>fringe_of := rest\<rparr>))"
    then have "map_of (dist_of st) u = Some du \<and> x \<in> set (fringe_of st)"
      using assms(2) by simp
    with s show "du \<le> fst x" unfolding settled_def by blast
  qed
  moreover have "fringe_nodes G (st\<lparr>fringe_of := rest\<rparr>)"
    using fn assms(2) by (simp add: fringe_nodes_def)
  ultimately show ?thesis
    using search_inv_skip [OF i assms(2,3)] by (simp add: safe_def)
qed

lemma safe_Continue:
  assumes "unit_weights G w" and "closed_graph G" and "safe G w source st"
    and "loop_body G w c t st = Continue st'"
  shows "safe G w source st'"
proof -
  from loop_body_Continue [OF assms(4)] obtain d k v rest where
    fr: "fringe_of st = (d, k, v) # rest"
    and cs: "(map_of (dist_of st) v \<noteq> None \<and> st' = st\<lparr>fringe_of := rest\<rparr>) \<or>
            (map_of (dist_of st) v = None \<and> t \<noteq> Some v \<and>
             (\<exists>ues. succ G v = Inr ues \<and>
                relax w c v ues (st\<lparr>fringe_of := rest, dist_of := AList.update v d (dist_of st)\<rparr>)
                  = Inr st'))"
    by blast
  from cs show ?thesis
  proof
    assume "map_of (dist_of st) v \<noteq> None \<and> st' = st\<lparr>fringe_of := rest\<rparr>"
    with safe_skip [OF assms(3) fr] show ?thesis by simp
  next
    let ?st1 = "st\<lparr>fringe_of := rest, dist_of := AList.update v d (dist_of st)\<rparr>"
    assume a: "map_of (dist_of st) v = None \<and> t \<noteq> Some v \<and>
             (\<exists>ues. succ G v = Inr ues \<and> relax w c v ues ?st1 = Inr st')"
    then obtain ues where s: "succ G v = Inr ues" and r: "relax w c v ues ?st1 = Inr st'"
      by blast
    from a have n: "map_of (dist_of st) v = None" by simp
    from safe_inner_relax [OF assms(1,2) r safe_visit [OF assms(3) fr n] s]
    show ?thesis by (rule safe_inner_safe)
  qed
qed

lemma safe_inner_relax_edge_Inr:
  assumes "unit_weights G w" and "safe_inner G w source v d st"
    and "succ G v = Inr ues" and "(u, e) \<in> set ues"
  shows "\<exists>st'. relax_edge w c v (u, e) st = Inr st'"
proof -
  from assms(3) have g: "map_of G v = Some ues" by (auto simp: succ_def split: option.splits)
  from assms(2) have i: "search_inv G w source st" and fb: "finalised_below st d"
    and dv: "map_of (dist_of st) v = Some d"
    by (simp_all add: safe_inner_def)
  from i dv have "map_of (seen_of st) v = Some d"
    unfolding search_inv_def fringe_ok_def by blast
  with i obtain pv where pv: "map_of (paths_of st) v = Some pv" "pv \<noteq> []"
    unfolding search_inv_def paths_ok_def by auto
  from weight_function_nonneg [OF assms(1) g assms(4)]
  have "relax_edge w c v (u, e) st \<noteq> Inl ValueError_contradictory"
    by (rule inner_no_contradiction [OF fb dv])
  then show ?thesis
    unfolding relax_edge_cases [OF pv(1) dv pv(2)] Let_def
    by (auto split: option.splits if_splits)
qed

lemma safe_no_Raise:
  assumes "unit_weights G w" and "closed_graph G" and "safe G w source st"
  shows "loop_body G w c t st \<noteq> Raise err"
proof
  assume b: "loop_body G w c t st = Raise err"
  from loop_body_Raise [OF b] obtain d k v rest where
    fr: "fringe_of st = (d, k, v) # rest" and n: "map_of (dist_of st) v = None"
    and cs: "succ G v = Inl err \<or>
            (\<exists>ues. succ G v = Inr ues \<and>
               relax w c v ues (st\<lparr>fringe_of := rest, dist_of := AList.update v d (dist_of st)\<rparr>)
                 = Inl err)"
    by blast
  let ?st1 = "st\<lparr>fringe_of := rest, dist_of := AList.update v d (dist_of st)\<rparr>"
  from assms(3) fr have "map_of G v \<noteq> None"
    by (simp add: safe_def fringe_nodes_def)
  then obtain ues where s: "succ G v = Inr ues" by (auto simp: succ_def)
  with cs have r: "relax w c v ues ?st1 = Inl err" by auto
  have "\<exists>ue s. ue \<in> set ues \<and> safe_inner G w source v d s \<and> relax_edge w c v ue s = Inl err"
  proof (rule relax_error_rule [OF r])
    show "safe_inner G w source v d ?st1" by (rule safe_visit [OF assms(3) fr n])
  next
    fix ue s s'
    assume "ue \<in> set ues" "safe_inner G w source v d s" "relax_edge w c v ue s = Inr s'"
    then show "safe_inner G w source v d s'"
      using safe_inner_relax_edge [OF assms(1,2) _ s, of source d s "fst ue" "snd ue" c s']
      by simp
  qed
  then obtain ue s' where ue: "ue \<in> set ues" and si: "safe_inner G w source v d s'"
    and re: "relax_edge w c v ue s' = Inl err"
    by blast
  from safe_inner_relax_edge_Inr [OF assms(1) si s, of "fst ue" "snd ue" c] ue re
  show False by simp
qed

lemma extends_refl: "extends st st"
  by (simp add: extends_def)

lemma extends_trans: "extends a b \<Longrightarrow> extends b c \<Longrightarrow> extends a c"
  unfolding extends_def by metis

lemma extends_relax_edge:
  assumes "relax_edge w c v ue st = Inr st'"
  shows "extends st st'"
proof -
  obtain u e where ue: "ue = (u, e)" by (cases ue) auto
  from relax_edge_Inr [OF assms [unfolded ue]]
  have "st' = st \<or> (\<exists>x pv. map_of (dist_of st) u = None \<and> st' = pushed st u x pv)" by blast
  then show ?thesis
    by (auto simp: extends_def pushed_def update_conv')
qed

lemma extends_relax:
  assumes "relax w c v ues st = Inr st'"
  shows "extends st st'"
  by (rule relax_rule [OF assms, where P = "extends st"])
     (auto intro: extends_refl extends_trans extends_relax_edge)

lemma extends_visit:
  assumes "map_of (dist_of st) v = None"
  shows "extends st (st\<lparr>fringe_of := rest, dist_of := AList.update v d (dist_of st)\<rparr>)"
  using assms by (auto simp: extends_def update_conv')

lemma extends_Continue:
  assumes "loop_body G w c t st = Continue st'"
  shows "extends st st'"
proof -
  from loop_body_Continue [OF assms] obtain d k v rest where
    cs: "st' = st\<lparr>fringe_of := rest\<rparr> \<or>
         (map_of (dist_of st) v = None \<and>
          (\<exists>ues. relax w c v ues (st\<lparr>fringe_of := rest, dist_of := AList.update v d (dist_of st)\<rparr>)
                  = Inr st'))"
    by blast
  then show ?thesis
  proof
    assume "st' = st\<lparr>fringe_of := rest\<rparr>"
    then show ?thesis by (simp add: extends_def)
  next
    assume "map_of (dist_of st) v = None \<and>
          (\<exists>ues. relax w c v ues (st\<lparr>fringe_of := rest, dist_of := AList.update v d (dist_of st)\<rparr>)
                  = Inr st')"
    then obtain ues where n: "map_of (dist_of st) v = None"
      and r: "relax w c v ues (st\<lparr>fringe_of := rest, dist_of := AList.update v d (dist_of st)\<rparr>) = Inr st'"
      by blast
    from extends_trans [OF extends_visit [OF n] extends_relax [OF r]] show ?thesis .
  qed
qed

lemma extends_Break:
  assumes "loop_body G w c t st = Break st'"
  shows "extends st st'"
  using loop_body_Break [OF assms] extends_visit [of st] extends_refl [of st] by auto

lemma search_total:
  assumes "unit_weights G w" and "closed_graph G" and "safe G w source st"
  shows "\<exists>st'. search_loop G w c t st = Inr st' \<and> extends st st'"
proof (cases "search_loop G w c t st")
  case (Inl err)
  have "\<exists>s. safe G w source s \<and> loop_body G w c t s = Raise err"
    by (rule search_loop_error_rule [OF Inl, where P = "safe G w source"])
       (auto intro: assms(3) safe_Continue [OF assms(1,2)])
  with safe_no_Raise [OF assms(1,2)] show ?thesis by blast
next
  case (Inr st')
  have "extends st st'"
    by (rule search_loop_rule [OF Inr, where P = "extends st"])
       (auto intro: extends_refl extends_trans extends_Continue extends_Break)
  with Inr show ?thesis by simp
qed

lemma safe_init:
  assumes "map_of G source \<noteq> None"
  shows "safe G w source (init_search source)"
  using assms search_inv_init [of G w source] settled_init [of source]
  by (simp add: safe_def fringe_nodes_def init_search_def)

subsection \<open>A smaller cutoff reaches at least as much\<close>

lemma strip_entry: "strip (d, c, u) = (d, u)"
  by (simp add: strip_def)

lemma strip_eq: "strip a = strip b \<longleftrightarrow> fst a = fst b \<and> snd (snd a) = snd (snd b)"
  by (simp add: strip_def)

lemma entry_less_fresh:
  assumes "fst (snd y) < c"
  shows "entry_less (d, c, u) y = (d < fst y)"
  using assms by (auto simp: entry_less_def)

lemma heappush_filter_out:
  assumes "\<not> d \<le> D"
  shows "filter (\<lambda>x. fst x \<le> D) (heappush fr (d, c, u)) = filter (\<lambda>x. fst x \<le> D) fr"
  using assms by (induction fr) auto

lemma heappush_filter_in:
  assumes "sorted_wrt (\<lambda>a b. \<not> entry_less b a) fr1"
    and "\<forall>y \<in> set fr1. fst (snd y) < c1" and "\<forall>y \<in> set fr2. fst (snd y) < c2"
    and "map strip fr2 = map strip (filter (\<lambda>x. fst x \<le> D) fr1)" and "d \<le> D"
  shows "map strip (heappush fr2 (d, c2, u))
           = map strip (filter (\<lambda>x. fst x \<le> D) (heappush fr1 (d, c1, u)))"
  using assms
proof (induction fr1 arbitrary: fr2)
  case Nil
  then show ?case by (simp add: strip_entry)
next
  case (Cons y ys)
  from Cons.prems(2) have ly: "entry_less (d, c1, u) y = (d < fst y)"
    by (simp add: entry_less_fresh)
  show ?case
  proof (cases "fst y \<le> D")
    case True
    with Cons.prems(4) obtain y2 ys2 where
      fr2: "fr2 = y2 # ys2" and s: "strip y2 = strip y"
      and r: "map strip ys2 = map strip (filter (\<lambda>x. fst x \<le> D) ys)"
      by (cases fr2) auto
    from s have fy: "fst y2 = fst y" by (simp add: strip_eq)
    from Cons.prems(3) fr2 have ly2: "entry_less (d, c2, u) y2 = (d < fst y)"
      by (simp add: entry_less_fresh fy)
    show ?thesis
    proof (cases "d < fst y")
      case True
      with ly ly2 fr2 s r \<open>fst y \<le> D\<close> Cons.prems(5) show ?thesis
        by (simp add: strip_entry)
    next
      case False
      from Cons.prems(1,2,3) fr2
      have "map strip (heappush ys2 (d, c2, u))
           = map strip (filter (\<lambda>x. fst x \<le> D) (heappush ys (d, c1, u)))"
        by (intro Cons.IH [OF _ _ _ r Cons.prems(5)]) auto
      with False ly ly2 fr2 s \<open>fst y \<le> D\<close> show ?thesis by simp
    qed
  next
    case False
    from Cons.prems(1) have "\<forall>z \<in> set ys. \<not> entry_less z y" by simp
    then have "\<forall>z \<in> set ys. \<not> fst z \<le> D"
      using False by (auto simp: entry_less_def)
    then have e: "filter (\<lambda>x. fst x \<le> D) ys = []" by (simp add: filter_empty_conv)
    with False Cons.prems(4) have fr2: "fr2 = []" by simp
    from False Cons.prems(5) have "d < fst y" by simp
    with ly fr2 e False Cons.prems(5) show ?thesis by (simp add: strip_entry)
  qed
qed

lemma filter_head:
  assumes "sorted_wrt (\<lambda>a b. \<not> entry_less b a) fr1"
    and "map strip ((d, k2, v) # rest2) = map strip (filter (\<lambda>x. fst x \<le> D) fr1)"
  shows "\<exists>k1 rest1. fr1 = (d, k1, v) # rest1 \<and> d \<le> D \<and>
           map strip rest2 = map strip (filter (\<lambda>x. fst x \<le> D) rest1)"
proof (cases fr1)
  case Nil
  with assms(2) show ?thesis by simp
next
  case (Cons y ys)
  show ?thesis
  proof (cases "fst y \<le> D")
    case True
    with assms(2) Cons have "strip y = (d, v)"
      and "map strip rest2 = map strip (filter (\<lambda>x. fst x \<le> D) ys)"
      by (simp_all add: strip_entry)
    moreover from this obtain k1 where "y = (d, k1, v)"
      by (cases y) (auto simp: strip_entry)
    ultimately show ?thesis using Cons True by auto
  next
    case False
    from assms(1) Cons have "\<forall>z \<in> set ys. \<not> entry_less z y" by simp
    then have "\<forall>z \<in> set ys. \<not> fst z \<le> D"
      using False by (auto simp: entry_less_def)
    then have "filter (\<lambda>x. fst x \<le> D) ys = []" by (simp add: filter_empty_conv)
    with False assms(2) Cons show ?thesis by simp
  qed
qed

lemma lockstep_improves:
  assumes "lockstep D st1 st2" and "x \<le> D"
  shows "improves st2 u x = improves st1 u x"
proof -
  from assms(1) have "map_of (seen_of st2) u =
               (case map_of (seen_of st1) u of
                  None \<Rightarrow> None | Some s \<Rightarrow> if s \<le> D then Some s else None)"
    unfolding lockstep_def by blast
  with assms(2) show ?thesis
    by (auto simp: improves_def split: option.splits if_splits)
qed

lemma lockstep_pushed_out:
  assumes "lockstep D st1 st2" and "\<not> x \<le> D" and "improves st1 u x"
  shows "lockstep D (pushed st1 u x pv) st2"
proof -
  let ?s1 = "pushed st1 u x pv"
  from assms(1) have
    r1: "dist_of st1 = dist_of st2"
    and r2: "\<And>a. map_of (seen_of st2) a =
               (case map_of (seen_of st1) a of
                  None \<Rightarrow> None | Some s \<Rightarrow> if s \<le> D then Some s else None)"
    and r3: "\<And>a. map_of (seen_of st2) a \<noteq> None \<Longrightarrow>
               map_of (paths_of st2) a = map_of (paths_of st1) a"
    and r4: "map strip (fringe_of st2) = map strip (filter (\<lambda>x. fst x \<le> D) (fringe_of st1))"
    and r5: "\<forall>x \<in> set (fringe_of st2). fst (snd x) < count_of st2"
    and r6: "\<forall>a d. map_of (dist_of st1) a = Some d \<longrightarrow> d \<le> D"
    unfolding lockstep_def by blast+
  from assms(2,3) r2 [of u] have u2: "map_of (seen_of st2) u = None"
    by (auto simp: improves_def split: option.splits if_splits)
  have 1: "dist_of ?s1 = dist_of st2" using r1 by (simp add: pushed_def)
  have 2: "map_of (seen_of st2) a =
               (case map_of (seen_of ?s1) a of
                  None \<Rightarrow> None | Some s \<Rightarrow> if s \<le> D then Some s else None)" for a
  proof (cases "a = u")
    case True
    with u2 assms(2) show ?thesis by (simp add: pushed_def update_conv')
  next
    case False
    with r2 [of a] show ?thesis by (simp add: pushed_def update_conv')
  qed
  have 3: "map_of (paths_of st2) a = map_of (paths_of ?s1) a"
    if "map_of (seen_of st2) a \<noteq> None" for a
  proof -
    from that u2 have "a \<noteq> u" by auto
    with r3 [OF that] show ?thesis by (simp add: pushed_def update_conv')
  qed
  have 4: "map strip (fringe_of st2) = map strip (filter (\<lambda>x. fst x \<le> D) (fringe_of ?s1))"
    by (simp add: pushed_def heappush_filter_out [OF assms(2)] r4)
  have 6: "\<forall>a d. map_of (dist_of ?s1) a = Some d \<longrightarrow> d \<le> D"
    using r6 by (simp add: pushed_def)
  show ?thesis
    unfolding lockstep_def using 1 2 3 4 r5 6 by blast
qed

lemma lockstep_pushed_in:
  assumes "lockstep D st1 st2" and "fringe_ok st1" and "x \<le> D"
  shows "lockstep D (pushed st1 u x pv) (pushed st2 u x pv)"
proof -
  let ?s1 = "pushed st1 u x pv" and ?s2 = "pushed st2 u x pv"
  from assms(1) have
    r1: "dist_of st1 = dist_of st2"
    and r2: "\<And>a. map_of (seen_of st2) a =
               (case map_of (seen_of st1) a of
                  None \<Rightarrow> None | Some s \<Rightarrow> if s \<le> D then Some s else None)"
    and r3: "\<And>a. map_of (seen_of st2) a \<noteq> None \<Longrightarrow>
               map_of (paths_of st2) a = map_of (paths_of st1) a"
    and r4: "map strip (fringe_of st2) = map strip (filter (\<lambda>x. fst x \<le> D) (fringe_of st1))"
    and r5: "\<forall>x \<in> set (fringe_of st2). fst (snd x) < count_of st2"
    and r6: "\<forall>a d. map_of (dist_of st1) a = Some d \<longrightarrow> d \<le> D"
    unfolding lockstep_def by blast+
  from assms(2) have so: "sorted_wrt (\<lambda>a b. \<not> entry_less b a) (fringe_of st1)"
    and fr: "\<forall>y \<in> set (fringe_of st1). fst (snd y) < count_of st1"
    unfolding fringe_ok_def fringe_sorted_def by blast+
  have 1: "dist_of ?s1 = dist_of ?s2" using r1 by (simp add: pushed_def)
  have 2: "map_of (seen_of ?s2) a =
               (case map_of (seen_of ?s1) a of
                  None \<Rightarrow> None | Some s \<Rightarrow> if s \<le> D then Some s else None)" for a
    using r2 [of a] assms(3) by (simp add: pushed_def update_conv')
  have 3: "map_of (paths_of ?s2) a = map_of (paths_of ?s1) a"
    if "map_of (seen_of ?s2) a \<noteq> None" for a
  proof (cases "a = u")
    case True
    then show ?thesis by (simp add: pushed_def update_conv')
  next
    case False
    with that have "map_of (seen_of st2) a \<noteq> None" by (simp add: pushed_def update_conv')
    from r3 [OF this] False show ?thesis by (simp add: pushed_def update_conv')
  qed
  have 4: "map strip (fringe_of ?s2) = map strip (filter (\<lambda>x. fst x \<le> D) (fringe_of ?s1))"
    by (simp add: pushed_def heappush_filter_in [OF so fr r5 r4 assms(3)])
  have 5: "\<forall>y \<in> set (fringe_of ?s2). fst (snd y) < count_of ?s2"
    using r5 by (auto simp: pushed_def set_heappush)
  have 6: "\<forall>a d. map_of (dist_of ?s1) a = Some d \<longrightarrow> d \<le> D"
    using r6 by (simp add: pushed_def)
  show ?thesis
    unfolding lockstep_def using 1 2 3 4 5 6 by blast
qed

lemma lockstep_relax_edge:
  assumes "\<forall>D1. c1 = Some D1 \<longrightarrow> D2 \<le> D1" and "lockstep D2 st1 st2" and "fringe_ok st1"
    and "finalised_below st1 d" and "map_of (dist_of st1) v = Some d"
    and "0 \<le> weight_function w e"
    and "relax_edge w (Some D2) v (u, e) st2 = Inr s2"
  shows "\<exists>s1. relax_edge w c1 v (u, e) st1 = Inr s1 \<and> lockstep D2 s1 s2"
proof -
  from assms(2) have
    r1: "dist_of st1 = dist_of st2"
    and r2: "\<And>a. map_of (seen_of st2) a =
               (case map_of (seen_of st1) a of
                  None \<Rightarrow> None | Some s \<Rightarrow> if s \<le> D2 then Some s else None)"
    and r3: "\<And>a. map_of (seen_of st2) a \<noteq> None \<Longrightarrow>
               map_of (paths_of st2) a = map_of (paths_of st1) a"
    and r6: "\<And>a d. map_of (dist_of st1) a = Some d \<Longrightarrow> d \<le> D2"
    unfolding lockstep_def by blast+
  from assms(7) obtain pv where p2: "map_of (paths_of st2) v = Some pv" and ne: "pv \<noteq> []"
    by (auto simp: relax_edge_def split: option.splits if_splits)
  from assms(5) r1 have d2: "map_of (dist_of st2) v = Some d" by simp
  from assms(3,5) have "map_of (seen_of st1) v = Some d" unfolding fringe_ok_def by blast
  with r2 [of v] r6 [OF assms(5)] have "map_of (seen_of st2) v \<noteq> None" by simp
  from r3 [OF this] p2 have p1: "map_of (paths_of st1) v = Some pv" by simp
  let ?x = "vu_dist d (weight_function w e) (length pv)"
  from vu_dist_ge [OF assms(6), of "length pv" d] ne have ge: "d \<le> ?x" by simp
  note e1 = relax_edge_cases [OF p1 assms(5) ne, of w c1 u e]
  note e2 = relax_edge_cases [OF p2 d2 ne, of w "Some D2" u e]
  show ?thesis
  proof (cases "map_of (dist_of st1) u")
    case (Some du)
    with assms(4) ge have n: "\<not> ?x < du" unfolding finalised_below_def by fastforce
    from Some r1 have "map_of (dist_of st2) u = Some du" by simp
    with assms(7) n have "s2 = st2" unfolding e2 Let_def by (simp split: if_splits)
    moreover from Some n have "relax_edge w c1 v (u, e) st1 = Inr st1"
      unfolding e1 Let_def by simp
    ultimately show ?thesis using assms(2) by simp
  next
    case None
    with r1 have n2: "map_of (dist_of st2) u = None" by simp
    show ?thesis
    proof (cases "?x \<le> D2")
      case True
      with assms(1) have o: "\<not> over_cutoff c1 ?x" "\<not> over_cutoff (Some D2) ?x"
        by (cases c1; fastforce simp: over_cutoff_def)+
      show ?thesis
      proof (cases "improves st1 u ?x")
        case True
        with lockstep_improves [OF assms(2) \<open>?x \<le> D2\<close>] have "improves st2 u ?x" by simp
        with assms(7) n2 o have "s2 = pushed st2 u ?x pv" unfolding e2 Let_def by simp
        moreover from True None o have "relax_edge w c1 v (u, e) st1 = Inr (pushed st1 u ?x pv)"
          unfolding e1 Let_def by simp
        ultimately show ?thesis
          using lockstep_pushed_in [OF assms(2,3) \<open>?x \<le> D2\<close>, of u pv] by simp
      next
        case False
        with lockstep_improves [OF assms(2) \<open>?x \<le> D2\<close>] have "\<not> improves st2 u ?x" by simp
        with assms(7) n2 o have "s2 = st2" unfolding e2 Let_def by simp
        moreover from False None o have "relax_edge w c1 v (u, e) st1 = Inr st1"
          unfolding e1 Let_def by simp
        ultimately show ?thesis using assms(2) by simp
      qed
    next
      case False
      then have "over_cutoff (Some D2) ?x" by (simp add: over_cutoff_def)
      with assms(7) have s2: "s2 = st2" unfolding e2 Let_def by simp
      show ?thesis
      proof (cases "\<not> over_cutoff c1 ?x \<and> improves st1 u ?x")
        case True
        with None have "relax_edge w c1 v (u, e) st1 = Inr (pushed st1 u ?x pv)"
          unfolding e1 Let_def by simp
        with lockstep_pushed_out [OF assms(2) False, of u pv] True s2 show ?thesis by simp
      next
        case False
        with None have "relax_edge w c1 v (u, e) st1 = Inr st1"
          unfolding e1 Let_def by auto
        with s2 assms(2) show ?thesis by simp
      qed
    qed
  qed
qed

lemma lockstep_relax:
  assumes "unit_weights G w" and "closed_graph G" and "\<forall>D1. c1 = Some D1 \<longrightarrow> D2 \<le> D1"
    and "succ G v = Inr ues0" and "set ues \<subseteq> set ues0"
    and "lockstep D2 st1 st2" and "safe_inner G w source v d st1"
    and "relax w (Some D2) v ues st2 = Inr s2"
  shows "\<exists>s1. relax w c1 v ues st1 = Inr s1 \<and> lockstep D2 s1 s2
           \<and> safe_inner G w source v d s1"
  using assms(5-8)
proof (induction ues arbitrary: st1 st2)
  case Nil
  then show ?case by simp
next
  case (Cons ue ues)
  obtain u e where ue: "ue = (u, e)" by (cases ue) auto
  from Cons.prems(1) ue have m: "(u, e) \<in> set ues0" and sub: "set ues \<subseteq> set ues0" by auto
  from assms(4) have g: "map_of G v = Some ues0" by (auto simp: succ_def split: option.splits)
  from Cons.prems(4) ue obtain m2 where
    a: "relax_edge w (Some D2) v (u, e) st2 = Inr m2" and b: "relax w (Some D2) v ues m2 = Inr s2"
    by (auto split: sum.splits)
  from Cons.prems(3) have f: "fringe_ok st1" and fb: "finalised_below st1 d"
    and dv: "map_of (dist_of st1) v = Some d"
    by (simp_all add: safe_inner_def search_inv_def)
  from lockstep_relax_edge [OF assms(3) Cons.prems(2) f fb dv
      weight_function_nonneg [OF assms(1) g m] a]
  obtain m1 where c: "relax_edge w c1 v (u, e) st1 = Inr m1" and l: "lockstep D2 m1 m2"
    by blast
  from safe_inner_relax_edge [OF assms(1,2) Cons.prems(3) assms(4) m c]
  have si: "safe_inner G w source v d m1" .
  from Cons.IH [OF sub l si b] obtain s1 where
    "relax w c1 v ues m1 = Inr s1" "lockstep D2 s1 s2" "safe_inner G w source v d s1"
    by blast
  with c ue show ?case by simp
qed

lemma lockstep_paths:
  assumes "lockstep D st1 st2" and "fringe_ok st1" and "map_of (dist_of st2) u = Some d"
  shows "map_of (dist_of st1) u = Some d \<and> map_of (paths_of st1) u = map_of (paths_of st2) u"
proof -
  from assms(1,3) have d1: "map_of (dist_of st1) u = Some d" unfolding lockstep_def by simp
  with assms(2) have "map_of (seen_of st1) u = Some d" unfolding fringe_ok_def by blast
  moreover from assms(1) d1 have "d \<le> D" unfolding lockstep_def by blast
  moreover from assms(1) have "map_of (seen_of st2) u =
               (case map_of (seen_of st1) u of
                  None \<Rightarrow> None | Some s \<Rightarrow> if s \<le> D then Some s else None)"
    unfolding lockstep_def by blast
  ultimately have "map_of (seen_of st2) u \<noteq> None" by simp
  with assms(1) have "map_of (paths_of st2) u = map_of (paths_of st1) u"
    unfolding lockstep_def by blast
  with d1 show ?thesis by simp
qed

lemma lockstep_skip:
  assumes "lockstep D st1 st2" and "fringe_of st1 = x1 # rest1" and "fringe_of st2 = x2 # rest2"
    and "map strip rest2 = map strip (filter (\<lambda>x. fst x \<le> D) rest1)"
  shows "lockstep D (st1\<lparr>fringe_of := rest1\<rparr>) (st2\<lparr>fringe_of := rest2\<rparr>)"
  using assms unfolding lockstep_def by simp

lemma lockstep_visit:
  assumes "lockstep D st1 st2" and "fringe_of st1 = x1 # rest1" and "fringe_of st2 = x2 # rest2"
    and "map strip rest2 = map strip (filter (\<lambda>x. fst x \<le> D) rest1)" and "d \<le> D"
  shows "lockstep D (st1\<lparr>fringe_of := rest1, dist_of := AList.update v d (dist_of st1)\<rparr>)
           (st2\<lparr>fringe_of := rest2, dist_of := AList.update v d (dist_of st2)\<rparr>)"
  using assms unfolding lockstep_def by (simp add: update_conv')

lemma lockstep_run:
  assumes "unit_weights G w" and "closed_graph G" and "\<forall>D1. c1 = Some D1 \<longrightarrow> D2 \<le> D1" and "c = Some D2"
    and "search_loop G w c t st2 = Inr f2" and "lockstep D2 st1 st2" and "safe G w source st1"
  shows "\<exists>f1. search_loop G w c1 t st1 = Inr f1 \<and>
           (\<forall>u d. map_of (dist_of f2) u = Some d \<longrightarrow>
              map_of (dist_of f1) u = Some d \<and> map_of (paths_of f1) u = map_of (paths_of f2) u)"
  using assms
proof (induction G w c t st2 arbitrary: st1 rule: search_loop.induct)
  case (1 G w c t st2)
  note uw = "1.prems"(1) and cg = "1.prems"(2) and le = "1.prems"(3) and c = "1.prems"(4)
    and run = "1.prems"(5) and lock = "1.prems"(6) and safe = "1.prems"(7)
  from safe have f1: "fringe_ok st1" by (simp add: safe_def search_inv_def)
  from lock have r1: "dist_of st1 = dist_of st2"
    and r4: "map strip (fringe_of st2) = map strip (filter (\<lambda>x. fst x \<le> D2) (fringe_of st1))"
    unfolding lockstep_def by blast+
  show ?case
  proof (cases "fringe_of st2")
    case Nil
    with run have "f2 = st2"
      by (simp add: search_loop.simps [of G w c t st2] loop_body_Nil)
    moreover from search_total [OF uw cg safe, of c1 t] obtain f1 where
      "search_loop G w c1 t st1 = Inr f1" "extends st1 f1"
      by blast
    ultimately show ?thesis
      using lockstep_paths [OF lock f1] unfolding extends_def by metis
  next
    case (Cons x2 rest2)
    obtain d k2 v where x2: "x2 = (d, k2, v)" by (cases x2) auto
    from f1 have so: "sorted_wrt (\<lambda>a b. \<not> entry_less b a) (fringe_of st1)"
      unfolding fringe_ok_def fringe_sorted_def by blast
    from filter_head [OF so r4 [unfolded Cons x2]] obtain k1 rest1 where
      fr1: "fringe_of st1 = (d, k1, v) # rest1" and dD: "d \<le> D2"
      and rr: "map strip rest2 = map strip (filter (\<lambda>x. fst x \<le> D2) rest1)"
      by blast
    note fr2 = Cons [unfolded x2]
    show ?thesis
    proof (cases "map_of (dist_of st2) v")
      case (Some a)
      then have n2: "map_of (dist_of st2) v \<noteq> None" and n1: "map_of (dist_of st1) v \<noteq> None"
        using r1 by simp_all
      let ?s1 = "st1\<lparr>fringe_of := rest1\<rparr>" and ?s2 = "st2\<lparr>fringe_of := rest2\<rparr>"
      have b2: "loop_body G w c t st2 = Continue ?s2" by (rule loop_body_skip [OF fr2 n2])
      have b1: "loop_body G w c1 t st1 = Continue ?s1" by (rule loop_body_skip [OF fr1 n1])
      from run b2 have run2: "search_loop G w c t ?s2 = Inr f2"
        by (simp add: search_loop.simps [of G w c t st2])
      from "1.IH" [OF b2 uw cg le c run2 lockstep_skip [OF lock fr1 fr2 rr]
          safe_skip [OF safe fr1 n1]]
      show ?thesis
        using b1 by (simp add: search_loop.simps [of G w c1 t st1])
    next
      case None
      then have n2: "map_of (dist_of st2) v = None" and n1: "map_of (dist_of st1) v = None"
        using r1 by simp_all
      let ?s1 = "st1\<lparr>fringe_of := rest1, dist_of := AList.update v d (dist_of st1)\<rparr>"
      let ?s2 = "st2\<lparr>fringe_of := rest2, dist_of := AList.update v d (dist_of st2)\<rparr>"
      have lock': "lockstep D2 ?s1 ?s2" by (rule lockstep_visit [OF lock fr1 fr2 rr dD])
      have si: "safe_inner G w source v d ?s1" by (rule safe_visit [OF safe fr1 n1])
      show ?thesis
      proof (cases "t = Some v")
        case True
        from run have "f2 = ?s2"
          by (simp add: search_loop.simps [of G w c t st2] loop_body_target [OF fr2 n2 True])
        moreover have "search_loop G w c1 t st1 = Inr ?s1"
          by (simp add: search_loop.simps [of G w c1 t st1] loop_body_target [OF fr1 n1 True])
        moreover from si have "fringe_ok ?s1" by (simp add: safe_inner_def search_inv_def)
        ultimately show ?thesis
          using lockstep_paths [OF lock'] by blast
      next
        case False
        from safe fr1 have "map_of G v \<noteq> None" by (simp add: safe_def fringe_nodes_def)
        then obtain ues where s: "succ G v = Inr ues" by (auto simp: succ_def)
        note v2 = loop_body_visit [OF fr2 n2 False s, of w c]
        note v1 = loop_body_visit [OF fr1 n1 False s, of w c1]
        from run obtain s2 where r2: "relax w c v ues ?s2 = Inr s2"
          and b2: "loop_body G w c t st2 = Continue s2"
          and run2: "search_loop G w c t s2 = Inr f2"
          by (auto simp: search_loop.simps [of G w c t st2] v2 split: sum.splits)
        from lockstep_relax [OF uw cg le s subset_refl lock' si r2 [unfolded c]]
        obtain s1 where r1': "relax w c1 v ues ?s1 = Inr s1"
          and l1: "lockstep D2 s1 s2" and si1: "safe_inner G w source v d s1"
          by blast
        from "1.IH" [OF b2 uw cg le c run2 l1 safe_inner_safe [OF si1]]
        show ?thesis
          by (simp add: search_loop.simps [of G w c1 t st1] v1 r1')
      qed
    qed
  qed
qed

lemma lockstep_init: "0 \<le> D \<Longrightarrow> lockstep D (init_search source) (init_search source)"
  by (simp add: lockstep_def init_search_def)

text \<open>
  Claim C5. On a graph whose successors are nodes and whose edge weights lie in
  \<open>(0, 1]\<close>, let \<open>c1\<close> and \<open>c2\<close> be cutoffs in \<open>(0, 1]\<close> with \<open>c1\<close> at most \<open>c2\<close>.
  When the search from a source with the cutoff \<open>c2\<close> returns, the search with the
  cutoff \<open>c1\<close> returns too, every node reached with \<open>c2\<close> is reached with \<open>c1\<close>,
  and it is reached with the same probability.
\<close>

theorem cutoff_monotone:
  assumes "unit_weights G w" and "closed_graph G"
    and "0 < c1" and "c1 \<le> c2" and "c2 \<le> 1"
    and "dijkstra_prob_length G source w c2 None = Inr (paths2, weights2)"
  shows "\<exists>paths1 weights1.
           dijkstra_prob_length G source w c1 None = Inr (paths1, weights1)
           \<and> fst ` set weights2 \<subseteq> fst ` set weights1
           \<and> (\<forall>u p. map_of weights2 u = Some p \<longrightarrow> map_of weights1 u = Some p)"
proof -
  from assms(3,4,5) have c2: "0 < c2" and c1: "c1 \<le> 1" by simp_all
  note d1 = cutoff_distance_unit [OF assms(3) c1]
  note d2 = cutoff_distance_unit [OF c2 assms(5)]
  from assms(3,4) have le: "- log 10 c2 \<le> - log 10 c1" by simp
  from assms(6) obtain f2 where
    l2: "search_loop G w (Some (- log 10 c2)) None (init_search source) = Inr f2"
    and r2: "search_result f2 = (paths2, weights2)"
    by (auto simp: dijkstra_prob_length_def d2 split: if_splits sum.splits)
  from dijkstra_source_node [OF assms(6)] have "map_of G source \<noteq> None"
    by (auto simp: succ_def split: option.splits)
  from le have "\<forall>D1. Some (- log 10 c1) = Some D1 \<longrightarrow> - log 10 c2 \<le> D1" by simp
  from lockstep_run [OF assms(1,2) this refl l2 lockstep_init [OF d2(2)] safe_init [OF \<open>map_of G source \<noteq> None\<close>]]
  obtain f1 where
    l1: "search_loop G w (Some (- log 10 c1)) None (init_search source) = Inr f1"
    and ag: "\<And>u d. map_of (dist_of f2) u = Some d \<Longrightarrow>
              map_of (dist_of f1) u = Some d \<and> map_of (paths_of f1) u = map_of (paths_of f2) u"
    by blast
  have dp1: "distinct (map fst (paths_of f1))"
    by (rule paths_distinct_loop [OF l1]) (simp add: init_search_def)
  have dp2: "distinct (map fst (paths_of f2))"
    by (rule paths_distinct_loop [OF l2]) (simp add: init_search_def)
  from l1 assms(3) c1
  have r1: "dijkstra_prob_length G source w c1 None = Inr (fst (search_result f1), snd (search_result f1))"
    by (simp add: dijkstra_prob_length_def d1)
  have v: "map_of (snd (search_result f1)) u = Some p" if "map_of weights2 u = Some p" for u p
  proof -
    from that r2 have w2: "map_of (snd (search_result f2)) u = Some p" by simp
    then obtain d where d: "map_of (dist_of f2) u = Some d"
      unfolding search_result_weights [OF dp2] by (auto split: option.splits if_splits)
    from ag [OF d] d have e1: "map_of (dist_of f1) u = map_of (dist_of f2) u"
      and e2: "map_of (paths_of f1) u = map_of (paths_of f2) u"
      by simp_all
    have "map_of (snd (search_result f1)) u = map_of (snd (search_result f2)) u"
      unfolding search_result_weights [OF dp1] search_result_weights [OF dp2] e1 e2 ..
    with w2 show ?thesis by simp
  qed
  have "fst ` set weights2 \<subseteq> fst ` set (snd (search_result f1))"
  proof
    fix u assume "u \<in> fst ` set weights2"
    then obtain p where "map_of weights2 u = Some p"
      by (cases "map_of weights2 u") (auto simp: map_of_eq_None_iff)
    from v [OF this] show "u \<in> fst ` set (snd (search_result f1))"
      by (metis map_of_eq_None_iff option.distinct(1))
  qed
  with r1 v show ?thesis by blast
qed

lemma log10_thousandth: "log 10 (1 / 1000) = - 3"
proof -
  have "log 10 (10 powr 3) = 3" by (rule log_powr_cancel) simp_all
  then have "log 10 1000 = 3" by simp
  then show ?thesis by (simp add: log_divide)
qed

lemma log10_two_bounds: "0 < log 10 2" "log 10 2 < 1"
  by simp_all

lemma example_chain_thousandth:
  "dijkstra_prob_length example_chain ''S'' ''weight'' (1 / 1000) None =
     Inr ([(''A'', [''S'', ''A'']), (''B'', [''S'', ''A'', ''B''])],
          [(''A'', 1 / 10), (''B'', 1 / 200)])"
  using log10_two_bounds
  by (simp add: search_defs example_chain_def log10_tenth log10_half log10_thousandth
      powr_two_hundredth)

lemma example_chain_closed: "closed_graph example_chain"
  unfolding closed_graph_def example_chain_def
  by (auto split: if_splits)

theorem cutoff_monotone_witness:
  "unit_weights example_chain ''weight'' \<and> closed_graph example_chain
   \<and> (0 :: real) < 1 / 1000 \<and> (1 / 1000 :: real) \<le> 1 / 100 \<and> (1 / 100 :: real) \<le> 1
   \<and> dijkstra_prob_length example_chain ''S'' ''weight'' (1 / 100) None =
       Inr ([(''A'', [''S'', ''A''])], [(''A'', 1 / 10)])
   \<and> dijkstra_prob_length example_chain ''S'' ''weight'' (1 / 1000) None =
       Inr ([(''A'', [''S'', ''A'']), (''B'', [''S'', ''A'', ''B''])],
            [(''A'', 1 / 10), (''B'', 1 / 200)])
   \<and> (\<exists>paths1 weights1.
         dijkstra_prob_length example_chain ''S'' ''weight'' (1 / 1000) None = Inr (paths1, weights1)
         \<and> fst ` set [(''A'', 1 / 10 :: real)] \<subseteq> fst ` set weights1
         \<and> (\<forall>u p. map_of [(''A'', 1 / 10 :: real)] u = Some p \<longrightarrow> map_of weights1 u = Some p))"
proof -
  have a: "(0 :: real) < 1 / 1000" and b: "(1 / 1000 :: real) \<le> 1 / 100"
    and c: "(1 / 100 :: real) \<le> 1"
    by simp_all
  note m = cutoff_monotone [OF example_chain_unit_weights example_chain_closed a b c
      example_chain_hundredth]
  from example_chain_unit_weights example_chain_closed a b c example_chain_hundredth
    example_chain_thousandth m
  show ?thesis by (intro conjI)
qed

subsection \<open>The cutoff 1 sets the limit 0, the cutoff 0 sets none\<close>

lemma finalised_within_cutoff:
  assumes "0 < c" and "c \<le> 1"
    and "dijkstra_prob_length G source w c target = Inr (paths, weights)"
  shows "\<exists>st. search_loop G w (cutoff_distance c) target (init_search source) = Inr st
           \<and> search_result st = (paths, weights)
           \<and> (\<forall>u d. map_of (dist_of st) u = Some d \<longrightarrow> d \<le> - log 10 c)"
proof -
  let ?D = "- log 10 c"
  note cd = cutoff_distance_unit [OF assms(1,2)]
  from assms(3) obtain st where
    l: "search_loop G w (Some ?D) target (init_search source) = Inr st"
    and r: "search_result st = (paths, weights)"
    by (auto simp: dijkstra_prob_length_def cd split: if_splits sum.splits)
  have "within_cutoff ?D (init_search source)"
    using cd(2) by (simp add: within_cutoff_def init_search_def)
  from within_cutoff_loop [OF l this]
  have "\<forall>u d. map_of (dist_of st) u = Some d \<longrightarrow> d \<le> ?D"
    unfolding within_cutoff_def by blast
  with l r show ?thesis unfolding cd(1) by blast
qed

lemma no_limit_accepts:
  assumes "map_of (paths_of st) v = Some pv" and "pv \<noteq> []" and "map_of (dist_of st) v = Some dv"
    and "map_of (dist_of st) u = None"
    and "improves st u (vu_dist dv (weight_function w e) (length pv))"
  shows "relax_edge w (cutoff_distance 0) v (u, e) st
           = Inr (pushed st u (vu_dist dv (weight_function w e) (length pv)) pv)"
  using assms(4,5)
  by (simp add: relax_edge_cases [OF assms(1,3,2)] Let_def over_cutoff_def cutoff_distance_def)

lemma no_limit_reaches:
  assumes "unit_weights G w" and "closed_graph G" and "0 < c" and "c \<le> 1"
    and "dijkstra_prob_length G source w c None = Inr (paths, weights)"
  shows "\<exists>paths0 weights0.
           dijkstra_prob_length G source w 0 None = Inr (paths0, weights0)
           \<and> (\<forall>u p. map_of weights u = Some p \<longrightarrow> map_of weights0 u = Some p)"
proof -
  note cd = cutoff_distance_unit [OF assms(3,4)]
  from assms(5) obtain f2 where
    l2: "search_loop G w (Some (- log 10 c)) None (init_search source) = Inr f2"
    and r2: "search_result f2 = (paths, weights)"
    by (auto simp: dijkstra_prob_length_def cd split: if_splits sum.splits)
  from dijkstra_source_node [OF assms(5)] have n: "map_of G source \<noteq> None"
    by (auto simp: succ_def split: option.splits)
  have "\<forall>D1. (None :: real option) = Some D1 \<longrightarrow> - log 10 c \<le> D1" by simp
  from lockstep_run [OF assms(1,2) this refl l2 lockstep_init [OF cd(2)] safe_init [OF n]]
  obtain f1 where
    l1: "search_loop G w None None (init_search source) = Inr f1"
    and ag: "\<And>u d. map_of (dist_of f2) u = Some d \<Longrightarrow>
              map_of (dist_of f1) u = Some d \<and> map_of (paths_of f1) u = map_of (paths_of f2) u"
    by blast
  have dp1: "distinct (map fst (paths_of f1))"
    by (rule paths_distinct_loop [OF l1]) (simp add: init_search_def)
  have dp2: "distinct (map fst (paths_of f2))"
    by (rule paths_distinct_loop [OF l2]) (simp add: init_search_def)
  from l1
  have r1: "dijkstra_prob_length G source w 0 None = Inr (fst (search_result f1), snd (search_result f1))"
    by (simp add: dijkstra_prob_length_def cutoff_distance_def)
  have v: "map_of (snd (search_result f1)) u = Some p" if "map_of weights u = Some p" for u p
  proof -
    from that r2 have w2: "map_of (snd (search_result f2)) u = Some p" by simp
    then obtain d where d: "map_of (dist_of f2) u = Some d"
      unfolding search_result_weights [OF dp2] by (auto split: option.splits if_splits)
    from ag [OF d] d have e1: "map_of (dist_of f1) u = map_of (dist_of f2) u"
      and e2: "map_of (paths_of f1) u = map_of (paths_of f2) u"
      by simp_all
    have "map_of (snd (search_result f1)) u = map_of (snd (search_result f2)) u"
      unfolding search_result_weights [OF dp1] search_result_weights [OF dp2] e1 e2 ..
    with w2 show ?thesis by simp
  qed
  with r1 show ?thesis by blast
qed

text \<open>
  Claim C1, amended. A cutoff \<open>c\<close> in \<open>(0, 1]\<close> becomes the largest distance
  \<open>D = -log10 c\<close>, and a candidate whose distance is greater than \<open>D\<close> is discarded:
  the state is left as it is, and the search finalises no node at a distance greater
  than \<open>D\<close>. The cutoff 1 gives \<open>D = 0\<close>, the smallest limit there is, so that it
  discards every candidate of a distance above 0. It is the cutoff 0 that sets no
  limit: a candidate for a node that is not finalised, and that improves on what was
  seen of it, is accepted whatever its distance is, and on a graph whose successors are
  nodes and whose edge weights lie in \<open>(0, 1]\<close> every node that is reached with the
  cutoff \<open>c\<close> is reached with the cutoff 0, with the same probability.
\<close>

theorem cutoff_filters:
  assumes "0 < c" and "c \<le> 1"
  shows "cutoff_distance c = Some (- log 10 c)
       \<and> (\<forall>(st :: 'n search) v u e pv dv.
            map_of (paths_of st) v = Some pv \<and> pv \<noteq> [] \<and> map_of (dist_of st) v = Some dv \<and>
            vu_dist dv (weight_function w e) (length pv) > - log 10 c
            \<longrightarrow> relax_edge w (cutoff_distance c) v (u, e) st = Inr st)
       \<and> (\<forall>paths weights.
            dijkstra_prob_length (G :: 'n graph) source w c target = Inr (paths, weights) \<longrightarrow>
            (\<exists>st. search_loop G w (cutoff_distance c) target (init_search source) = Inr st
                \<and> search_result st = (paths, weights)
                \<and> (\<forall>u d. map_of (dist_of st) u = Some d \<longrightarrow> d \<le> - log 10 c)))
       \<and> cutoff_distance 1 = Some 0
       \<and> cutoff_distance 0 = None
       \<and> (\<forall>(st :: 'n search) v u e pv dv.
            map_of (paths_of st) v = Some pv \<and> pv \<noteq> [] \<and> map_of (dist_of st) v = Some dv \<and>
            map_of (dist_of st) u = None \<and>
            improves st u (vu_dist dv (weight_function w e) (length pv))
            \<longrightarrow> relax_edge w (cutoff_distance 0) v (u, e) st
                  = Inr (pushed st u (vu_dist dv (weight_function w e) (length pv)) pv))
       \<and> (unit_weights G w \<and> closed_graph G \<longrightarrow>
            (\<forall>paths weights.
               dijkstra_prob_length G source w c None = Inr (paths, weights) \<longrightarrow>
               (\<exists>paths0 weights0.
                  dijkstra_prob_length G source w 0 None = Inr (paths0, weights0)
                  \<and> (\<forall>u p. map_of weights u = Some p \<longrightarrow> map_of weights0 u = Some p))))"
proof (intro conjI allI impI)
  show "cutoff_distance c = Some (- log 10 c)" by (rule cutoff_distance_unit [OF assms])
  show "cutoff_distance 1 = Some 0" by (simp add: cutoff_distance_def)
  show "cutoff_distance 0 = None" by (simp add: cutoff_distance_def)
next
  fix st :: "'n search" and v u e pv dv
  assume a: "map_of (paths_of st) v = Some pv \<and> pv \<noteq> [] \<and> map_of (dist_of st) v = Some dv \<and>
            vu_dist dv (weight_function w e) (length pv) > - log 10 c"
  then have "relax_edge w (Some (- log 10 c)) v (u, e) st = Inr st"
    by (simp add: relax_edge_cases [of st v pv dv] Let_def over_cutoff_def)
  then show "relax_edge w (cutoff_distance c) v (u, e) st = Inr st"
    by (simp add: cutoff_distance_unit [OF assms])
next
  fix paths weights
  assume "dijkstra_prob_length G source w c target = Inr (paths, weights)"
  then show "\<exists>st. search_loop G w (cutoff_distance c) target (init_search source) = Inr st
                \<and> search_result st = (paths, weights)
                \<and> (\<forall>u d. map_of (dist_of st) u = Some d \<longrightarrow> d \<le> - log 10 c)"
    by (rule finalised_within_cutoff [OF assms])
next
  fix st :: "'n search" and v u e pv dv
  assume a: "map_of (paths_of st) v = Some pv \<and> pv \<noteq> [] \<and> map_of (dist_of st) v = Some dv \<and>
            map_of (dist_of st) u = None \<and>
            improves st u (vu_dist dv (weight_function w e) (length pv))"
  show "relax_edge w (cutoff_distance 0) v (u, e) st
          = Inr (pushed st u (vu_dist dv (weight_function w e) (length pv)) pv)"
    by (rule no_limit_accepts) (use a in simp_all)
next
  fix paths weights
  assume "unit_weights G w \<and> closed_graph G"
    and "dijkstra_prob_length G source w c None = Inr (paths, weights)"
  then show "\<exists>paths0 weights0.
                  dijkstra_prob_length G source w 0 None = Inr (paths0, weights0)
                  \<and> (\<forall>u p. map_of weights u = Some p \<longrightarrow> map_of weights0 u = Some p)"
    using no_limit_reaches [OF _ _ assms, of G w source paths weights] by blast
qed

text \<open>
  Claim C1 as it is stated fails: with the cutoff 1 the search on the chain from S over
  A to B, whose edges have the probability 1/10, reaches no node, and with the cutoff
  0, which sets no limit, it reaches both.
\<close>

theorem cutoff_one_counterexample:
  "cutoff_distance 1 = Some 0
   \<and> dijkstra_prob_length example_chain ''S'' ''weight'' 1 None = Inr ([], [])
   \<and> dijkstra_prob_length example_chain ''S'' ''weight'' 0 None =
       Inr ([(''A'', [''S'', ''A'']), (''B'', [''S'', ''A'', ''B''])],
            [(''A'', 1 / 10), (''B'', 1 / 200)])"
  using example_chain_one example_chain_unlimited by (simp add: cutoff_distance_def)

theorem cutoff_filters_witness:
  "(0 :: real) < 1 / 100 \<and> (1 / 100 :: real) \<le> 1
   \<and> cutoff_distance (1 / 100) = Some 2
   \<and> vu_dist 1 (weight_function ''weight'' [(''weight'', 1 / 10)]) 2 > - log 10 (1 / 100)
   \<and> relax_edge ''weight'' (cutoff_distance (1 / 100)) ''A'' (''B'', [(''weight'', 1 / 10)])
         example_chain_state = Inr example_chain_state
   \<and> dijkstra_prob_length example_chain ''S'' ''weight'' (1 / 100) None =
       Inr ([(''A'', [''S'', ''A''])], [(''A'', 1 / 10)])
   \<and> (\<exists>st. search_loop example_chain ''weight'' (cutoff_distance (1 / 100)) None (init_search ''S'')
             = Inr st
         \<and> search_result st = ([(''A'', [''S'', ''A''])], [(''A'', 1 / 10)])
         \<and> (\<forall>u d. map_of (dist_of st) u = Some d \<longrightarrow> d \<le> - log 10 (1 / 100)))
   \<and> map_of (dist_of example_chain_state) ''B'' = None
   \<and> improves example_chain_state ''B''
         (vu_dist 1 (weight_function ''weight'' [(''weight'', 1 / 10)]) (length [''S'', ''A'']))
   \<and> relax_edge ''weight'' (cutoff_distance 0) ''A'' (''B'', [(''weight'', 1 / 10)])
         example_chain_state
       = Inr (pushed example_chain_state ''B''
                (vu_dist 1 (weight_function ''weight'' [(''weight'', 1 / 10)]) (length [''S'', ''A'']))
                [''S'', ''A''])
   \<and> unit_weights example_chain ''weight'' \<and> closed_graph example_chain
   \<and> (\<exists>paths0 weights0.
         dijkstra_prob_length example_chain ''S'' ''weight'' 0 None = Inr (paths0, weights0)
         \<and> (\<forall>u p. map_of [(''A'', 1 / 10 :: real)] u = Some p \<longrightarrow> map_of weights0 u = Some p))"
proof -
  have a: "(0 :: real) < 1 / 100" and b: "(1 / 100 :: real) \<le> 1" by simp_all
  note cf = cutoff_filters [OF a b, of "''weight''" example_chain "''S''" None]
  have 1: "cutoff_distance (1 / 100) = Some 2"
    using cf [THEN conjunct1] by (simp add: log10_hundredth)
  have v: "vu_dist 1 (weight_function ''weight'' [(''weight'', 1 / 10)]) 2 > - log 10 (1 / 100)"
    by (simp add: vu_dist_def weight_function_def log10_tenth log10_half log10_hundredth)
  have l: "length [''S'', ''A''] = 2" by simp
  have p: "map_of (paths_of example_chain_state) ''A'' = Some [''S'', ''A''] \<and>
      [''S'', ''A''] \<noteq> [] \<and> map_of (dist_of example_chain_state) ''A'' = Some 1 \<and>
      vu_dist 1 (weight_function ''weight'' [(''weight'', 1 / 10)]) (length [''S'', ''A''])
        > - log 10 (1 / 100)"
    unfolding l using v by (simp add: example_chain_state_def)
  have 2: "relax_edge ''weight'' (cutoff_distance (1 / 100)) ''A'' (''B'', [(''weight'', 1 / 10)])
         example_chain_state = Inr example_chain_state"
    by (rule cf [THEN conjunct2, THEN conjunct1, rule_format, OF p])
  have 3: "\<exists>st. search_loop example_chain ''weight'' (cutoff_distance (1 / 100)) None (init_search ''S'')
             = Inr st
         \<and> search_result st = ([(''A'', [''S'', ''A''])], [(''A'', 1 / 10)])
         \<and> (\<forall>u d. map_of (dist_of st) u = Some d \<longrightarrow> d \<le> - log 10 (1 / 100))"
    by (rule cf [THEN conjunct2, THEN conjunct2, THEN conjunct1, rule_format,
          OF example_chain_hundredth])
  have 4: "map_of (dist_of example_chain_state) ''B'' = None"
    by (simp add: example_chain_state_def)
  have 5: "improves example_chain_state ''B''
         (vu_dist 1 (weight_function ''weight'' [(''weight'', 1 / 10)]) (length [''S'', ''A'']))"
    by (simp add: improves_def example_chain_state_def)
  have q: "map_of (paths_of example_chain_state) ''A'' = Some [''S'', ''A''] \<and>
      [''S'', ''A''] \<noteq> [] \<and> map_of (dist_of example_chain_state) ''A'' = Some 1 \<and>
      map_of (dist_of example_chain_state) ''B'' = None \<and>
      improves example_chain_state ''B''
         (vu_dist 1 (weight_function ''weight'' [(''weight'', 1 / 10)]) (length [''S'', ''A'']))"
    using 4 5 by (simp add: example_chain_state_def)
  have 6: "relax_edge ''weight'' (cutoff_distance 0) ''A'' (''B'', [(''weight'', 1 / 10)])
         example_chain_state
       = Inr (pushed example_chain_state ''B''
                (vu_dist 1 (weight_function ''weight'' [(''weight'', 1 / 10)]) (length [''S'', ''A'']))
                [''S'', ''A''])"
    by (rule cf [THEN conjunct2, THEN conjunct2, THEN conjunct2, THEN conjunct2, THEN conjunct2,
          THEN conjunct1, rule_format, OF q])
  have 7: "\<exists>paths0 weights0.
         dijkstra_prob_length example_chain ''S'' ''weight'' 0 None = Inr (paths0, weights0)
         \<and> (\<forall>u p. map_of [(''A'', 1 / 10 :: real)] u = Some p \<longrightarrow> map_of weights0 u = Some p)"
    by (rule cf [THEN conjunct2, THEN conjunct2, THEN conjunct2, THEN conjunct2, THEN conjunct2,
          THEN conjunct2, rule_format,
          OF conjI [OF example_chain_unit_weights example_chain_closed] example_chain_hundredth])
  from a b 1 v 2 example_chain_hundredth 3 4 5 6 example_chain_unit_weights example_chain_closed 7
  show ?thesis by (intro conjI)
qed

end
